theory Spec2Isabelle
  imports Complex_Main "HOL-Library.Log_Nat" "HOL-Library.Sublist" "HOL-Library.AList"
    "HOL-Library.Monad_Syntax"
begin

section \<open>The subtitle converter of lrc-vtt-srt-translator.py\<close>

text \<open>
  The theory embeds the class \<^verbatim>\<open>SubtitleConverter\<close>: the time codec
  (\<^verbatim>\<open>parse_time\<close>, \<^verbatim>\<open>format_time\<close>), the three parsers, the three serializers and
  the driver \<^verbatim>\<open>convert\<close>.

  Modelling decisions.
  \<^item> A Python \<^verbatim>\<open>str\<close> is a \<open>string\<close>; one \<open>char\<close> stands for one code point below 256.
    The character classes of Python (\<^verbatim>\<open>str.isspace\<close>, \<^verbatim>\<open>str.isdigit\<close>, the \<^verbatim>\<open>\d\<close> of
    \<^verbatim>\<open>re\<close>, \<^verbatim>\<open>str.lower\<close>) are written out for these code points.
  \<^item> A Python \<^verbatim>\<open>float\<close> is the rational number it denotes. Every arithmetic operation
    on floats is the exact operation followed by \<open>fl\<close>, rounding to the nearest number
    with a 53-bit significand, ties to even (IEEE 754 binary64). The exponent is not
    bounded: the values of this program stay far from overflow and underflow. There
    is no NaN, no infinity and no negative zero.
  \<^item> An exception is a value \<open>Inl e\<close> of the sum type \<open>error + 'a\<close>.
  \<^item> An input file is the suffix of its path (\<^verbatim>\<open>Path.suffix\<close>) and what reading it
    gives: its decoded text or the exception of \<^verbatim>\<open>read_text\<close>.
\<close>

subsection \<open>Characters and strings\<close>

definition newline :: char where
  "newline = CHR 0x0A"

text \<open>\<^verbatim>\<open>str.isspace\<close>, which \<^verbatim>\<open>str.strip()\<close> uses, on the code points below 256.\<close>

definition isspace :: "char \<Rightarrow> bool" where
  "isspace c \<longleftrightarrow> c \<in> set [CHR 0x09, CHR 0x0A, CHR 0x0B, CHR 0x0C, CHR 0x0D,
     CHR 0x1C, CHR 0x1D, CHR 0x1E, CHR 0x1F, CHR 0x20, CHR 0x85, CHR 0xA0]"

text \<open>The class \<^verbatim>\<open>\d\<close> of \<^verbatim>\<open>re\<close> (Unicode category Nd) on the code points below 256.\<close>

definition is_digit :: "char \<Rightarrow> bool" where
  "is_digit c \<longleftrightarrow> c \<in> set ''0123456789''"

text \<open>\<^verbatim>\<open>str.isdigit\<close> of one character: the decimal digits and the superscripts 2, 3, 1.\<close>

definition isdigit_char :: "char \<Rightarrow> bool" where
  "isdigit_char c \<longleftrightarrow> is_digit c \<or> c \<in> set [CHR 0xB2, CHR 0xB3, CHR 0xB9]"

definition isdigit :: "string \<Rightarrow> bool" where
  "isdigit s \<longleftrightarrow> s \<noteq> [] \<and> list_all isdigit_char s"

definition strip :: "string \<Rightarrow> string" where
  "strip s = rev (dropWhile isspace (rev (dropWhile isspace s)))"

text \<open>\<^verbatim>\<open>str.lower\<close>: the ASCII capitals and the Latin-1 capitals (all of 0xC0..0xDE but 0xD7).\<close>

definition lower_char :: "char \<Rightarrow> char" where
  "lower_char c = (let n = (of_char c :: nat)
     in if (65 \<le> n \<and> n \<le> 90) \<or> (192 \<le> n \<and> n \<le> 222 \<and> n \<noteq> 215)
        then char_of (n + 32) else c)"

definition lower :: "string \<Rightarrow> string" where
  "lower s = map lower_char s"

text \<open>\<^verbatim>\<open>sep.join(xs)\<close>.\<close>

fun join :: "string \<Rightarrow> string list \<Rightarrow> string" where
  "join sep [] = []"
| "join sep [x] = x"
| "join sep (x # y # ys) = x @ sep @ join sep (y # ys)"

text \<open>
  \<^verbatim>\<open>s.split(sep)\<close> for a non-empty separator: the pieces between the occurrences of
  \<open>sep\<close>, found from the left without overlap. \<open>acc\<close> is the current piece, reversed.
\<close>

function split_from :: "string \<Rightarrow> string \<Rightarrow> string \<Rightarrow> string list" where
  "split_from sep acc [] = [rev acc]"
| "split_from sep acc (c # cs) =
     (if sep \<noteq> [] \<and> prefix sep (c # cs)
      then rev acc # split_from sep [] (drop (length sep) (c # cs))
      else split_from sep (c # acc) cs)"
  by pat_completeness auto
termination
  by (relation "measure (\<lambda>(sep, acc, s). length s)") auto

definition split :: "string \<Rightarrow> string \<Rightarrow> string list" where
  "split s sep = split_from sep [] s"

text \<open>\<^verbatim>\<open>sub in s\<close>.\<close>

fun contains :: "string \<Rightarrow> string \<Rightarrow> bool" where
  "contains sub [] \<longleftrightarrow> sub = []"
| "contains sub (c # cs) \<longleftrightarrow> prefix sub (c # cs) \<or> contains sub cs"

text \<open>\<^verbatim>\<open>int(s)\<close> on a string of decimal digits.\<close>

definition digit_val :: "char \<Rightarrow> nat" where
  "digit_val c = of_char c - 48"

definition int_of_digits :: "string \<Rightarrow> nat" where
  "int_of_digits s = foldl (\<lambda>a c. 10 * a + digit_val c) 0 s"

text \<open>
  The format specification \<^verbatim>\<open>{i:0wd}\<close> of an f-string: the decimal digits of \<open>i\<close>,
  filled with zeros on the left up to the width \<open>w\<close>; a minus sign counts in the width.
\<close>

fun digits_of :: "nat \<Rightarrow> string" where
  "digits_of n = (if n < 10 then [char_of (48 + n)]
                  else digits_of (n div 10) @ [char_of (48 + n mod 10)])"

declare digits_of.simps [simp del]

definition zfill :: "nat \<Rightarrow> string \<Rightarrow> string" where
  "zfill w s = replicate (w - length s) CHR ''0'' @ s"

definition fmt_d :: "nat \<Rightarrow> int \<Rightarrow> string" where
  "fmt_d w i = (if i < 0 then CHR ''-'' # zfill (w - 1) (digits_of (nat (- i)))
                else zfill w (digits_of (nat i)))"

text \<open>\<^verbatim>\<open>str(i)\<close> of an integer, used for the index of an SRT block.\<close>

definition str_int :: "int \<Rightarrow> string" where
  "str_int i = fmt_d 0 i"

subsection \<open>Floating-point numbers\<close>

type_synonym seconds = rat

definition pow2 :: "int \<Rightarrow> rat" where
  "pow2 e = (if 0 \<le> e then 2 ^ nat e else 1 / 2 ^ nat (- e))"

text \<open>For \<open>0 < x\<close>, \<open>flog2 x\<close> is the exponent \<open>k\<close> with \<open>2\<^sup>k \<le> x < 2\<^sup>k\<^sup>+\<^sup>1\<close>.\<close>

definition flog2 :: "rat \<Rightarrow> int" where
  "flog2 x = (if 1 \<le> x then bitlen \<lfloor>x\<rfloor> - 1 else - bitlen (\<lceil>1 / x\<rceil> - 1))"

text \<open>Rounding to the nearest integer, a tie to the even one.\<close>

definition round_half_even :: "rat \<Rightarrow> int" where
  "round_half_even m = (let f = \<lfloor>m\<rfloor>; d = m - of_int f
     in if d < 1 / 2 then f else if 1 / 2 < d then f + 1
        else if even f then f else f + 1)"

text \<open>
  \<open>fl x\<close> is the double nearest to \<open>x\<close>: \<open>\<bar>x\<bar>\<close> is scaled to a significand in
  \<open>[2\<^sup>5\<^sup>2, 2\<^sup>5\<^sup>3)\<close>, the significand is rounded to an integer, and the result is scaled back.
\<close>

definition fl :: "rat \<Rightarrow> rat" where
  "fl x = (if x = 0 then 0
           else let e = flog2 \<bar>x\<bar> - 52
                in sgn x * of_int (round_half_even (\<bar>x\<bar> / pow2 e)) * pow2 e)"

definition fadd :: "rat \<Rightarrow> rat \<Rightarrow> rat" where
  "fadd x y = fl (x + y)"

definition fsub :: "rat \<Rightarrow> rat \<Rightarrow> rat" where
  "fsub x y = fl (x - y)"

definition fmul :: "rat \<Rightarrow> rat \<Rightarrow> rat" where
  "fmul x y = fl (x * y)"

definition fdiv :: "rat \<Rightarrow> rat \<Rightarrow> rat" where
  "fdiv x y = fl (x / y)"

text \<open>\<^verbatim>\<open>float(i)\<close>, the conversion that Python applies to an \<^verbatim>\<open>int\<close> operand of a float.\<close>

definition float_of_int :: "int \<Rightarrow> rat" where
  "float_of_int i = fl (of_int i)"

text \<open>\<^verbatim>\<open>int(x)\<close> of a float: truncation towards zero.\<close>

definition py_int :: "rat \<Rightarrow> int" where
  "py_int x = (if 0 \<le> x then \<lfloor>x\<rfloor> else \<lceil>x\<rceil>)"

text \<open>
  \<^verbatim>\<open>x % y\<close> and \<^verbatim>\<open>x // y\<close> on floats, as CPython computes them
  (\<^verbatim>\<open>float_rem\<close> and \<^verbatim>\<open>_float_div_mod\<close> of floatobject.c) from C's \<^verbatim>\<open>fmod\<close>, which is
  exact and has the sign of \<open>x\<close>. The divisors of this program are the constants 3600
  and 60, so the division by zero is not modelled.
\<close>

definition c_fmod :: "rat \<Rightarrow> rat \<Rightarrow> rat" where
  "c_fmod x y = x - y * of_int (py_int (x / y))"

definition float_rem :: "rat \<Rightarrow> rat \<Rightarrow> rat" where
  "float_rem x y = (let m = c_fmod x y
     in if m \<noteq> 0 \<and> ((y < 0) \<noteq> (m < 0)) then fadd m y else m)"

definition float_floor_div :: "rat \<Rightarrow> rat \<Rightarrow> rat" where
  "float_floor_div x y = (let m = c_fmod x y;
       d0 = fdiv (fsub x m) y;
       d = (if m \<noteq> 0 \<and> ((y < 0) \<noteq> (m < 0)) then fsub d0 1 else d0)
     in if d \<noteq> 0
        then (let fd = of_int \<lfloor>d\<rfloor> in if 1 / 2 < fsub d fd then fadd fd 1 else fd)
        else 0)"

subsection \<open>The compiled patterns\<close>

text \<open>
  \<^verbatim>\<open>\d{1,n}\<close>, greedy: the longest run of at most \<open>n\<close> digits at the front, which must
  not be empty. In each of the patterns below, what follows \<^verbatim>\<open>\d{1,n}\<close> is a literal
  character that is no digit (or the end of the pattern), so a shorter run can never
  match where the longest one fails: backtracking finds nothing more, and the match
  of \<^verbatim>\<open>re\<close> is this left-to-right scan. The result is the group and the rest.
\<close>

definition re_digits :: "nat \<Rightarrow> string \<Rightarrow> (string \<times> string) option" where
  "re_digits n s = (let d = takeWhile is_digit (take n s)
     in if d = [] then None else Some (d, drop (length d) s))"

text \<open>One character of a class.\<close>

fun re_char :: "(char \<Rightarrow> bool) \<Rightarrow> string \<Rightarrow> string option" where
  "re_char P [] = None"
| "re_char P (c # cs) = (if P c then Some cs else None)"

text \<open>
  \<^verbatim>\<open>time_pattern = (\d{1,2}):(\d{1,2}):(\d{1,2})[,.](\d{1,3})\<close>, matched at the front of the
  string as \<^verbatim>\<open>Pattern.match\<close> does. The result is the four groups.
\<close>

definition time_pattern_match :: "string \<Rightarrow> (string \<times> string \<times> string \<times> string) option" where
  "time_pattern_match str = do {
     (h, r1) \<leftarrow> re_digits 2 str;
     r2 \<leftarrow> re_char (\<lambda>c. c = CHR '':'') r1;
     (m, r3) \<leftarrow> re_digits 2 r2;
     r4 \<leftarrow> re_char (\<lambda>c. c = CHR '':'') r3;
     (s, r5) \<leftarrow> re_digits 2 r4;
     r6 \<leftarrow> re_char (\<lambda>c. c = CHR '','' \<or> c = CHR ''.'') r5;
     (ms, r7) \<leftarrow> re_digits 3 r6;
     Some (h, m, s, ms)
   }"

text \<open>
  \<^verbatim>\<open>lrc_time_pattern = \[(\d{1,2}):(\d{1,2})\.(\d{1,2})\]\<close> at the front of the string: the
  three groups and what follows the match.
\<close>

definition lrc_time_pattern_at :: "string \<Rightarrow> ((string \<times> string \<times> string) \<times> string) option" where
  "lrc_time_pattern_at str = do {
     r1 \<leftarrow> re_char (\<lambda>c. c = CHR ''['') str;
     (m, r2) \<leftarrow> re_digits 2 r1;
     r3 \<leftarrow> re_char (\<lambda>c. c = CHR '':'') r2;
     (s, r4) \<leftarrow> re_digits 2 r3;
     r5 \<leftarrow> re_char (\<lambda>c. c = CHR ''.'') r4;
     (cs, r6) \<leftarrow> re_digits 2 r5;
     r7 \<leftarrow> re_char (\<lambda>c. c = CHR '']'') r6;
     Some ((m, s, cs), r7)
   }"

definition lrc_time_pattern_match :: "string \<Rightarrow> (string \<times> string \<times> string) option" where
  "lrc_time_pattern_match str = map_option fst (lrc_time_pattern_at str)"

subsection \<open>The time codec\<close>

definition parse_time :: "string \<Rightarrow> string \<Rightarrow> seconds" where
  "parse_time time_str format =
     (if format \<in> {''srt'', ''vtt''} then
        (case time_pattern_match time_str of
           Some (h, m, s, ms) \<Rightarrow>
             fadd (of_nat (int_of_digits h * 3600 + int_of_digits m * 60 + int_of_digits s))
                  (fdiv (of_nat (int_of_digits ms)) 1000)
         | None \<Rightarrow> 0)
      else if format = ''lrc'' then
        (case lrc_time_pattern_match time_str of
           Some (m, s, cs) \<Rightarrow>
             fadd (of_nat (int_of_digits m * 60 + int_of_digits s))
                  (fdiv (of_nat (int_of_digits cs)) 100)
         | None \<Rightarrow> 0)
      else 0)"

definition format_time :: "seconds \<Rightarrow> string \<Rightarrow> string" where
  "format_time seconds target_format =
     (if target_format = ''srt'' then
        (let h = py_int (float_floor_div seconds 3600);
             m = py_int (float_floor_div (float_rem seconds 3600) 60);
             s = py_int (float_rem seconds 60);
             ms = py_int (fmul (fsub seconds (float_of_int (py_int seconds))) 1000)
         in fmt_d 2 h @ '':'' @ fmt_d 2 m @ '':'' @ fmt_d 2 s @ '','' @ fmt_d 3 ms)
      else if target_format = ''vtt'' then
        (let h = py_int (float_floor_div seconds 3600);
             m = py_int (float_floor_div (float_rem seconds 3600) 60);
             s = py_int (float_rem seconds 60);
             ms = py_int (fmul (fsub seconds (float_of_int (py_int seconds))) 1000)
         in fmt_d 2 h @ '':'' @ fmt_d 2 m @ '':'' @ fmt_d 2 s @ ''.'' @ fmt_d 3 ms)
      else if target_format = ''lrc'' then
        (let m = py_int (float_floor_div seconds 60);
             s = py_int (float_rem seconds 60);
             cs = py_int (fmul (fsub seconds (float_of_int (py_int seconds))) 100)
         in ''['' @ fmt_d 2 m @ '':'' @ fmt_d 2 s @ ''.'' @ fmt_d 2 cs @ '']'')
      else '''')"

subsection \<open>Errors\<close>

datatype error = IndexError | KeyError | ValueError string | FileNotFoundError | UnicodeDecodeError

text \<open>A subscript \<^verbatim>\<open>xs[i]\<close>. The indices of this program are never negative.\<close>

definition idx :: "'a list \<Rightarrow> nat \<Rightarrow> error + 'a" where
  "idx xs i = (if i < length xs then Inr (xs ! i) else Inl IndexError)"

subsection \<open>The parsers\<close>

type_synonym cue = "seconds \<times> seconds \<times> string"

text \<open>
  The inner loop of \<^verbatim>\<open>parse_srt\<close> and \<^verbatim>\<open>parse_vtt\<close>:
  \<^verbatim>\<open>while i < len(lines) and lines[i].strip(): text_lines.append(lines[i].strip()); i += 1\<close>.
  It returns the text lines and the index where it stopped.
\<close>

function collect_text :: "string list \<Rightarrow> nat \<Rightarrow> string list \<Rightarrow> error + (string list \<times> nat)" where
  "collect_text lines i text_lines =
     (if i < length lines then
        (case idx lines i of
           Inl e \<Rightarrow> Inl e
         | Inr l \<Rightarrow>
             if strip l \<noteq> [] then collect_text lines (i + 1) (text_lines @ [strip l])
             else Inr (text_lines, i))
      else Inr (text_lines, i))"
  by pat_completeness auto
termination
  by (relation "measure (\<lambda>(lines, i, text_lines). length lines - i)") auto

declare collect_text.simps [simp del]

lemma collect_text_le: "collect_text lines i acc = Inr (t, j) \<Longrightarrow> i \<le> j"
proof (induction lines i acc rule: collect_text.induct)
  case (1 lines i text_lines)
  show ?case
  proof (cases "i < length lines \<and> strip (lines ! i) \<noteq> []")
    case True
    with "1.prems" have "collect_text lines (i + 1) (text_lines @ [strip (lines ! i)]) = Inr (t, j)"
      by (subst (asm) collect_text.simps) (simp add: idx_def)
    with "1.IH" [of "lines ! i"] True have "i + 1 \<le> j"
      by (simp add: idx_def)
    then show ?thesis by simp
  next
    case False
    with "1.prems" show ?thesis
      by (subst (asm) collect_text.simps) (auto simp: idx_def split: if_splits)
  qed
qed

text \<open>The loop of \<^verbatim>\<open>parse_srt\<close>, from the index \<open>i\<close> with the cues read so far.\<close>

function srt_loop :: "string list \<Rightarrow> nat \<Rightarrow> cue list \<Rightarrow> error + cue list" where
  "srt_loop lines i subtitles =
     (if i < length lines then
        (case idx lines i of
           Inl e \<Rightarrow> Inl e
         | Inr l \<Rightarrow>
             if isdigit (strip l) then
               (case idx lines (i + 1) of
                  Inl e \<Rightarrow> Inl e
                | Inr l1 \<Rightarrow>
                    (let time_line = strip l1;
                         times = split time_line '' --> ''
                     in if length times = 2 then
                          (case idx times 0 of
                             Inl e \<Rightarrow> Inl e
                           | Inr t0 \<Rightarrow>
                          (case idx times 1 of
                             Inl e \<Rightarrow> Inl e
                           | Inr t1 \<Rightarrow>
                          (case collect_text lines (i + 2) [] of
                             Inl e \<Rightarrow> Inl e
                           | Inr r \<Rightarrow>
                               srt_loop lines (snd r + 1)
                                 (subtitles @ [(parse_time (strip t0) ''srt'',
                                                parse_time (strip t1) ''srt'',
                                                join [newline] (fst r))]))))
                        else srt_loop lines (i + 2) subtitles))
             else srt_loop lines (i + 1) subtitles)
      else Inr subtitles)"
  by pat_completeness auto
termination
proof (relation "measure (\<lambda>(lines, i, subtitles). length lines - i)", goal_cases)
  case 1
  show ?case by simp
next
  case (2 lines i subtitles l l1 time_line times t0 t1 r)
  from 2 have "i + 2 \<le> snd r"
    using collect_text_le [of lines "i + 2" "[]" "fst r" "snd r"] by simp
  with 2 show ?case by simp
next
  case 3
  then show ?case by simp
next
  case 4
  then show ?case by simp
qed

declare srt_loop.simps [simp del]

definition parse_srt :: "string list \<Rightarrow> error + (string \<times> cue list)" where
  "parse_srt lines = map_sum id (\<lambda>subtitles. (''srt'', subtitles)) (srt_loop lines 0 [])"

text \<open>The loop of \<^verbatim>\<open>parse_vtt\<close>.\<close>

function vtt_loop :: "string list \<Rightarrow> nat \<Rightarrow> cue list \<Rightarrow> error + cue list" where
  "vtt_loop lines i subtitles =
     (if i < length lines then
        (case idx lines i of
           Inl e \<Rightarrow> Inl e
         | Inr l \<Rightarrow>
             if contains ''-->'' l then
               (let time_line = strip l;
                    times = split time_line '' --> ''
                in if length times = 2 then
                     (case idx times 0 of
                        Inl e \<Rightarrow> Inl e
                      | Inr t0 \<Rightarrow>
                     (case idx times 1 of
                        Inl e \<Rightarrow> Inl e
                      | Inr t1 \<Rightarrow>
                     (case collect_text lines (i + 1) [] of
                        Inl e \<Rightarrow> Inl e
                      | Inr r \<Rightarrow>
                          vtt_loop lines (snd r + 1)
                            (subtitles @ [(parse_time (strip t0) ''vtt'',
                                           parse_time (strip t1) ''vtt'',
                                           join [newline] (fst r))]))))
                   else vtt_loop lines (i + 1) subtitles)
             else vtt_loop lines (i + 1) subtitles)
      else Inr subtitles)"
  by pat_completeness auto
termination
proof (relation "measure (\<lambda>(lines, i, subtitles). length lines - i)", goal_cases)
  case 1
  show ?case by simp
next
  case (2 lines i subtitles l time_line times t0 t1 r)
  from 2 have "i + 1 \<le> snd r"
    using collect_text_le [of lines "i + 1" "[]" "fst r" "snd r"] by simp
  with 2 show ?case by simp
next
  case 3
  then show ?case by simp
next
  case 4
  then show ?case by simp
qed

declare vtt_loop.simps [simp del]

definition parse_vtt :: "string list \<Rightarrow> error + (string \<times> cue list)" where
  "parse_vtt lines = map_sum id (\<lambda>subtitles. (''vtt'', subtitles)) (vtt_loop lines 0 [])"

text \<open>
  \<^verbatim>\<open>lrc_time_pattern.findall(line)\<close> and \<^verbatim>\<open>lrc_time_pattern.sub('', line)\<close>: the
  pattern is tried at each position from the left; after a match the scan goes on
  behind it.
\<close>

lemma re_digits_length: "re_digits n s = Some (d, r) \<Longrightarrow> length r \<le> length s"
  by (auto simp: re_digits_def Let_def split: if_splits)

lemma re_char_length: "re_char P s = Some r \<Longrightarrow> length r < length s"
  by (cases s) (auto split: if_splits)

lemma lrc_time_pattern_at_length:
  assumes "lrc_time_pattern_at s = Some (g, r)"
  shows "length r < length s"
proof -
  from assms obtain r1 where r1: "re_char (\<lambda>c. c = CHR ''['') s = Some r1"
    by (auto simp: lrc_time_pattern_at_def split: Option.bind_splits)
  from assms r1 obtain m r2 where r2: "re_digits 2 r1 = Some (m, r2)"
    by (auto simp: lrc_time_pattern_at_def split: Option.bind_splits)
  from assms r1 r2 obtain r3 where r3: "re_char (\<lambda>c. c = CHR '':'') r2 = Some r3"
    by (auto simp: lrc_time_pattern_at_def split: Option.bind_splits)
  from assms r1 r2 r3 obtain s' r4 where r4: "re_digits 2 r3 = Some (s', r4)"
    by (auto simp: lrc_time_pattern_at_def split: Option.bind_splits)
  from assms r1 r2 r3 r4 obtain r5 where r5: "re_char (\<lambda>c. c = CHR ''.'') r4 = Some r5"
    by (auto simp: lrc_time_pattern_at_def split: Option.bind_splits)
  from assms r1 r2 r3 r4 r5 obtain cs r6 where r6: "re_digits 2 r5 = Some (cs, r6)"
    by (auto simp: lrc_time_pattern_at_def split: Option.bind_splits)
  from assms r1 r2 r3 r4 r5 r6 have r7: "re_char (\<lambda>c. c = CHR '']'') r6 = Some r"
    by (auto simp: lrc_time_pattern_at_def split: Option.bind_splits)
  from re_char_length [OF r1] re_digits_length [OF r2] re_char_length [OF r3]
    re_digits_length [OF r4] re_char_length [OF r5] re_digits_length [OF r6]
    re_char_length [OF r7]
  show ?thesis by simp
qed

lemma lrc_time_pattern_at_snd: "lrc_time_pattern_at s = Some gr \<Longrightarrow> length (snd gr) < length s"
  using lrc_time_pattern_at_length [of s "fst gr" "snd gr"] by simp

function lrc_findall :: "string \<Rightarrow> (string \<times> string \<times> string) list" where
  "lrc_findall [] = []"
| "lrc_findall (c # cs) =
     (case lrc_time_pattern_at (c # cs) of
        Some gr \<Rightarrow> fst gr # lrc_findall (snd gr)
      | None \<Rightarrow> lrc_findall cs)"
  by pat_completeness auto
termination
  by (relation "measure length") (auto dest: lrc_time_pattern_at_snd)

function lrc_sub :: "string \<Rightarrow> string" where
  "lrc_sub [] = []"
| "lrc_sub (c # cs) =
     (case lrc_time_pattern_at (c # cs) of
        Some gr \<Rightarrow> lrc_sub (snd gr)
      | None \<Rightarrow> c # lrc_sub cs)"
  by pat_completeness auto
termination
  by (relation "measure length") (auto dest: lrc_time_pattern_at_snd)

text \<open>The seconds of one tag: \<^verbatim>\<open>m * 60 + s + cs / 100\<close>.\<close>

definition tag_seconds :: "string \<times> string \<times> string \<Rightarrow> seconds" where
  "tag_seconds tag = (case tag of (m, s, cs) \<Rightarrow>
     fadd (of_nat (int_of_digits m * 60 + int_of_digits s))
          (fdiv (of_nat (int_of_digits cs)) 100))"

text \<open>
  The body of the first loop of \<^verbatim>\<open>parse_lrc\<close> for one line. The dictionary
  \<^verbatim>\<open>time_text_map\<close> is an association list in insertion order: an assignment to a
  key that is present replaces its value in place.
\<close>

definition lrc_line :: "(seconds \<times> string) list \<Rightarrow> string \<Rightarrow> (seconds \<times> string) list" where
  "lrc_line time_text_map line0 =
     (let line = strip line0
      in if line = [] then time_text_map
         else (let time_tags = lrc_findall line
               in if time_tags = [] then time_text_map
                  else (let text = strip (lrc_sub line)
                        in foldl (\<lambda>mp tag. AList.update (tag_seconds tag) text mp)
                             time_text_map time_tags)))"

text \<open>The second loop of \<^verbatim>\<open>parse_lrc\<close>, \<^verbatim>\<open>for i in range(len(sorted_times))\<close>.\<close>

function lrc_loop ::
  "seconds list \<Rightarrow> (seconds \<times> string) list \<Rightarrow> nat \<Rightarrow> cue list \<Rightarrow> error + cue list" where
  "lrc_loop sorted_times time_text_map i subtitles =
     (if i < length sorted_times then
        (case idx sorted_times i of
           Inl e \<Rightarrow> Inl e
         | Inr start \<Rightarrow>
        (case (if i + 1 < length sorted_times then idx sorted_times (i + 1)
               else Inr (fadd start 5)) of
           Inl e \<Rightarrow> Inl e
         | Inr end_t \<Rightarrow>
        (case map_of time_text_map start of
           None \<Rightarrow> Inl KeyError
         | Some text \<Rightarrow>
             lrc_loop sorted_times time_text_map (i + 1) (subtitles @ [(start, end_t, text)]))))
      else Inr subtitles)"
  by pat_completeness auto
termination
  by (relation "measure (\<lambda>(sorted_times, time_text_map, i, subtitles). length sorted_times - i)")
     auto

declare lrc_loop.simps [simp del]

definition parse_lrc :: "string list \<Rightarrow> error + (string \<times> cue list)" where
  "parse_lrc lines =
     (let time_text_map = foldl lrc_line [] lines;
          sorted_times = sort (map fst time_text_map)
      in map_sum id (\<lambda>subtitles. (''lrc'', subtitles))
           (lrc_loop sorted_times time_text_map 0 []))"

subsection \<open>The serializers\<close>

definition to_srt :: "cue list \<Rightarrow> string" where
  "to_srt subtitles = join [newline]
     (map (\<lambda>(i, start, end_t, text).
             str_int (int i) @ [newline] @ format_time start ''srt'' @ '' --> ''
               @ format_time end_t ''srt'' @ [newline] @ text @ [newline])
          (enumerate 1 subtitles))"

definition to_vtt :: "cue list \<Rightarrow> string" where
  "to_vtt subtitles = join [newline]
     ([''WEBVTT'', []] @
      map (\<lambda>(start, end_t, text).
             format_time start ''vtt'' @ '' --> '' @ format_time end_t ''vtt''
               @ [newline] @ text @ [newline])
          subtitles)"

definition to_lrc :: "cue list \<Rightarrow> string" where
  "to_lrc subtitles = join [newline]
     (map (\<lambda>(start, end_t, text). format_time start ''lrc'' @ text) subtitles)"

subsection \<open>The driver\<close>

text \<open>
  An input file: the suffix of its path as \<^verbatim>\<open>Path.suffix\<close> gives it (with the dot, in
  the case of the path) and the result of \<^verbatim>\<open>read_text(encoding='utf-8')\<close>: the decoded
  text, or the exception that it raises, FileNotFoundError for a file that is not
  there and UnicodeDecodeError for bytes that are not UTF-8.
\<close>

record input_file =
  suffix :: string
  read_text :: "error + string"

definition read_file :: "input_file \<Rightarrow> error + (string \<times> cue list)" where
  "read_file file_path =
     (case read_text file_path of
        Inl e \<Rightarrow> Inl e
      | Inr text \<Rightarrow>
          (let content = strip text;
               lines = split content [newline]
           in if lower (suffix file_path) = ''.srt'' then parse_srt lines
              else if lower (suffix file_path) = ''.vtt'' then parse_vtt lines
              else if lower (suffix file_path) = ''.lrc'' then parse_lrc lines
              else Inl (ValueError (''Unsupported file format: '' @ suffix file_path))))"

definition convert :: "input_file \<Rightarrow> string \<Rightarrow> error + string" where
  "convert input_file output_format =
     (case read_file input_file of
        Inl e \<Rightarrow> Inl e
      | Inr (input_format, subtitles) \<Rightarrow>
          if input_format = output_format
          then Inl (ValueError ''Input and output formats are the same'')
          else if output_format = ''srt'' then Inr (to_srt subtitles)
          else if output_format = ''vtt'' then Inr (to_vtt subtitles)
          else if output_format = ''lrc'' then Inr (to_lrc subtitles)
          else Inl (ValueError (''Unsupported output format: '' @ output_format)))"

subsection \<open>The shapes of timestamps\<close>

text \<open>
  The shapes that the specification names, written from its words and used to state
  what the patterns match. \<open>digit_run n d\<close>: \<open>d\<close> consists of 1 to \<open>n\<close> digits.
  \<open>no_digit_ahead r\<close>: \<open>r\<close> does not start with a digit.
  \<open>time_shaped str\<close>: \<open>str\<close> starts with a timestamp \<^verbatim>\<open>HH:MM:SS<sep>mmm\<close> of 1 to 2 digits
  for the hours, minutes and seconds and 1 to 3 digits for the milliseconds, the
  separator being a comma or a dot. \<open>lrc_shaped str\<close>: \<open>str\<close> starts with a tag
  \<^verbatim>\<open>[MM:SS.cc]\<close> of 1 to 2 digits in each field.
\<close>

definition digit_run :: "nat \<Rightarrow> string \<Rightarrow> bool" where
  "digit_run n d \<longleftrightarrow> d \<noteq> [] \<and> length d \<le> n \<and> list_all is_digit d"

definition no_digit_ahead :: "string \<Rightarrow> bool" where
  "no_digit_ahead r \<longleftrightarrow> (case r of [] \<Rightarrow> True | c # _ \<Rightarrow> \<not> is_digit c)"

definition time_shaped :: "string \<Rightarrow> bool" where
  "time_shaped str \<longleftrightarrow> (\<exists>h m s sep ms rest.
     str = h @ '':'' @ m @ '':'' @ s @ [sep] @ ms @ rest \<and>
     digit_run 2 h \<and> digit_run 2 m \<and> digit_run 2 s \<and> digit_run 3 ms \<and>
     (sep = CHR '','' \<or> sep = CHR ''.''))"

definition lrc_shaped :: "string \<Rightarrow> bool" where
  "lrc_shaped str \<longleftrightarrow> (\<exists>m s cs rest.
     str = ''['' @ m @ '':'' @ s @ ''.'' @ cs @ '']'' @ rest \<and>
     digit_run 2 m \<and> digit_run 2 s \<and> digit_run 2 cs)"


subsection \<open>What \<open>parse_lrc\<close> takes from one line\<close>

text \<open>
  Names for parts of \<open>parse_lrc\<close>, used to state what it returns: the seconds of the
  tags of a line, in the order of \<^verbatim>\<open>findall\<close>; the text of a line, its tags removed;
  and the cue that the second loop appends at the index \<open>j\<close>.
\<close>

definition line_tags :: "string \<Rightarrow> seconds list" where
  "line_tags line = map tag_seconds (lrc_findall (strip line))"

definition line_text :: "string \<Rightarrow> string" where
  "line_text line = strip (lrc_sub (strip line))"

definition lrc_cue :: "seconds list \<Rightarrow> (seconds \<times> string) list \<Rightarrow> nat \<Rightarrow> cue" where
  "lrc_cue ts mp j =
     (ts ! j, (if j + 1 < length ts then ts ! (j + 1) else fadd (ts ! j) 5), the (map_of mp (ts ! j)))"


subsection \<open>The fields of a formatted time\<close>








section \<open>What the patterns match\<close>

lemma takeWhile_take_stop:
  "k = 0 \<or> no_digit_ahead r \<Longrightarrow> takeWhile is_digit (take k r) = []"
  by (cases r; cases k) (auto simp: no_digit_ahead_def)

lemma re_digits_append:
  assumes "digit_run n d" and "length d = n \<or> no_digit_ahead r"
  shows "re_digits n (d @ r) = Some (d, r)"
proof -
  from assms(1) have d: "d \<noteq> []" "length d \<le> n" "\<forall>c\<in>set d. is_digit c"
    by (auto simp: digit_run_def list_all_iff)
  from assms(2) have "n - length d = 0 \<or> no_digit_ahead r" by auto
  then have "takeWhile is_digit (take (n - length d) r) = []"
    by (rule takeWhile_take_stop)
  with d have "takeWhile is_digit (take n (d @ r)) = d"
    by (simp add: takeWhile_append2)
  with d show ?thesis
    by (simp add: re_digits_def)
qed

lemma re_digits_SomeD:
  assumes "re_digits n s = Some (d, r)"
  shows "s = d @ r \<and> digit_run n d \<and> (length d = n \<or> no_digit_ahead r)"
proof -
  define k where "k = length (takeWhile is_digit (take n s))"
  from assms have d: "d = takeWhile is_digit (take n s)" and ne: "d \<noteq> []"
    by (auto simp: re_digits_def Let_def split: if_splits)
  from assms have r: "r = drop k s"
    by (auto simp: re_digits_def Let_def k_def split: if_splits)
  have lenk: "length d = k" by (simp add: d k_def)
  have "k \<le> length (take n s)"
    unfolding k_def by (rule length_takeWhile_le)
  then have kn: "k \<le> n" and ks: "k \<le> length s" by simp_all
  have "takeWhile is_digit (take n s) = take k (take n s)"
    unfolding k_def by (rule takeWhile_eq_take)
  with kn have dk: "d = take k s" by (simp add: d min_def)
  have s: "s = d @ r" by (simp add: dk r)
  have digs: "list_all is_digit d"
    unfolding d list_all_iff by (auto dest: set_takeWhileD)
  have stop: "length d = n \<or> no_digit_ahead r"
  proof (cases "k = n \<or> r = []")
    case True
    then show ?thesis by (auto simp: lenk no_digit_ahead_def)
  next
    case False
    with kn have lt: "k < n" and rne: "r \<noteq> []" by simp_all
    from rne r have "k < length s" by simp
    with lt have "length (takeWhile is_digit (take n s)) < length (take n s)"
      by (simp add: k_def [symmetric])
    then have "\<not> is_digit (take n s ! length (takeWhile is_digit (take n s)))"
      by (rule nth_length_takeWhile)
    with lt have nd: "\<not> is_digit (s ! k)" by (simp add: k_def [symmetric])
    from \<open>k < length s\<close> have "r = s ! k # drop (Suc k) s"
      by (simp add: r Cons_nth_drop_Suc)
    with nd have "no_digit_ahead r"
      by (cases r) (simp_all add: no_digit_ahead_def)
    then show ?thesis by simp
  qed
  from s ne kn digs stop show ?thesis by (simp add: digit_run_def lenk)
qed

lemma re_char_Cons: "P c \<Longrightarrow> re_char P (c # r) = Some r"
  by simp

lemma re_char_SomeD: "re_char P s = Some r \<Longrightarrow> \<exists>c. s = c # r \<and> P c"
  by (cases s) (auto split: if_splits)

lemma no_digit_ahead_Cons: "\<not> is_digit c \<Longrightarrow> no_digit_ahead (c # r)"
  by (simp add: no_digit_ahead_def)

lemma not_digit_seps:
  "\<not> is_digit CHR '':''" "\<not> is_digit CHR '',''" "\<not> is_digit CHR ''.''" "\<not> is_digit CHR '']''"
  by (simp_all add: is_digit_def)

lemma time_pattern_match_shape:
  assumes "digit_run 2 h" "digit_run 2 m" "digit_run 2 s" "digit_run 3 ms"
    and "sep = CHR '','' \<or> sep = CHR ''.''"
    and "length ms = 3 \<or> no_digit_ahead rest"
  shows "time_pattern_match (h @ '':'' @ m @ '':'' @ s @ [sep] @ ms @ rest) = Some (h, m, s, ms)"
proof -
  have 1: "re_digits 2 (h @ CHR '':'' # m @ CHR '':'' # s @ sep # ms @ rest)
      = Some (h, CHR '':'' # m @ CHR '':'' # s @ sep # ms @ rest)"
    using assms(1) by (intro re_digits_append) (simp_all add: no_digit_ahead_Cons not_digit_seps)
  have 2: "re_digits 2 (m @ CHR '':'' # s @ sep # ms @ rest)
      = Some (m, CHR '':'' # s @ sep # ms @ rest)"
    using assms(2) by (intro re_digits_append) (simp_all add: no_digit_ahead_Cons not_digit_seps)
  have 3: "re_digits 2 (s @ sep # ms @ rest) = Some (s, sep # ms @ rest)"
    using assms(3,5) by (intro re_digits_append) (auto simp: no_digit_ahead_Cons not_digit_seps)
  have 4: "re_digits 3 (ms @ rest) = Some (ms, rest)"
    using assms(4,6) by (intro re_digits_append) auto
  from assms(5) show ?thesis
    by (auto simp: time_pattern_match_def 1 2 3 4)
qed

lemma time_pattern_match_SomeD:
  assumes "time_pattern_match str = Some (h, m, s, ms)"
  shows "\<exists>sep rest. str = h @ '':'' @ m @ '':'' @ s @ [sep] @ ms @ rest \<and>
      digit_run 2 h \<and> digit_run 2 m \<and> digit_run 2 s \<and> digit_run 3 ms \<and>
      (sep = CHR '','' \<or> sep = CHR ''.'') \<and> (length ms = 3 \<or> no_digit_ahead rest)"
proof -
  from assms obtain r1 where 1: "re_digits 2 str = Some (h, r1)"
    by (auto simp: time_pattern_match_def split: Option.bind_splits)
  from assms 1 obtain r2 where 2: "re_char (\<lambda>c. c = CHR '':'') r1 = Some r2"
    by (auto simp: time_pattern_match_def split: Option.bind_splits)
  from assms 1 2 obtain r3 where 3: "re_digits 2 r2 = Some (m, r3)"
    by (auto simp: time_pattern_match_def split: Option.bind_splits)
  from assms 1 2 3 obtain r4 where 4: "re_char (\<lambda>c. c = CHR '':'') r3 = Some r4"
    by (auto simp: time_pattern_match_def split: Option.bind_splits)
  from assms 1 2 3 4 obtain r5 where 5: "re_digits 2 r4 = Some (s, r5)"
    by (auto simp: time_pattern_match_def split: Option.bind_splits)
  from assms 1 2 3 4 5 obtain r6
    where 6: "re_char (\<lambda>c. c = CHR '','' \<or> c = CHR ''.'') r5 = Some r6"
    by (auto simp: time_pattern_match_def split: Option.bind_splits)
  from assms 1 2 3 4 5 6 obtain r7 where 7: "re_digits 3 r6 = Some (ms, r7)"
    by (auto simp: time_pattern_match_def split: Option.bind_splits)
  from re_char_SomeD [OF 6] obtain sep where sep: "r5 = sep # r6" "sep = CHR '','' \<or> sep = CHR ''.''"
    by auto
  from re_digits_SomeD [OF 1] re_char_SomeD [OF 2] re_digits_SomeD [OF 3] re_char_SomeD [OF 4]
    re_digits_SomeD [OF 5] sep re_digits_SomeD [OF 7]
  have "str = h @ '':'' @ m @ '':'' @ s @ [sep] @ ms @ r7 \<and>
      digit_run 2 h \<and> digit_run 2 m \<and> digit_run 2 s \<and> digit_run 3 ms \<and>
      (sep = CHR '','' \<or> sep = CHR ''.'') \<and> (length ms = 3 \<or> no_digit_ahead r7)"
    by auto
  then show ?thesis by blast
qed

lemma lrc_time_pattern_at_shape:
  assumes "digit_run 2 m" "digit_run 2 s" "digit_run 2 cs"
  shows "lrc_time_pattern_at (''['' @ m @ '':'' @ s @ ''.'' @ cs @ '']'' @ rest) = Some ((m, s, cs), rest)"
proof -
  have 1: "re_digits 2 (m @ CHR '':'' # s @ CHR ''.'' # cs @ CHR '']'' # rest)
      = Some (m, CHR '':'' # s @ CHR ''.'' # cs @ CHR '']'' # rest)"
    using assms(1) by (intro re_digits_append) (simp_all add: no_digit_ahead_Cons not_digit_seps)
  have 2: "re_digits 2 (s @ CHR ''.'' # cs @ CHR '']'' # rest)
      = Some (s, CHR ''.'' # cs @ CHR '']'' # rest)"
    using assms(2) by (intro re_digits_append) (simp_all add: no_digit_ahead_Cons not_digit_seps)
  have 3: "re_digits 2 (cs @ CHR '']'' # rest) = Some (cs, CHR '']'' # rest)"
    using assms(3) by (intro re_digits_append) (simp_all add: no_digit_ahead_Cons not_digit_seps)
  show ?thesis
    by (simp add: lrc_time_pattern_at_def 1 2 3)
qed

lemma lrc_time_pattern_at_SomeD:
  assumes "lrc_time_pattern_at str = Some ((m, s, cs), rest)"
  shows "str = ''['' @ m @ '':'' @ s @ ''.'' @ cs @ '']'' @ rest \<and>
      digit_run 2 m \<and> digit_run 2 s \<and> digit_run 2 cs"
proof -
  from assms obtain r1 where 1: "re_char (\<lambda>c. c = CHR ''['') str = Some r1"
    by (auto simp: lrc_time_pattern_at_def split: Option.bind_splits)
  from assms 1 obtain r2 where 2: "re_digits 2 r1 = Some (m, r2)"
    by (auto simp: lrc_time_pattern_at_def split: Option.bind_splits)
  from assms 1 2 obtain r3 where 3: "re_char (\<lambda>c. c = CHR '':'') r2 = Some r3"
    by (auto simp: lrc_time_pattern_at_def split: Option.bind_splits)
  from assms 1 2 3 obtain r4 where 4: "re_digits 2 r3 = Some (s, r4)"
    by (auto simp: lrc_time_pattern_at_def split: Option.bind_splits)
  from assms 1 2 3 4 obtain r5 where 5: "re_char (\<lambda>c. c = CHR ''.'') r4 = Some r5"
    by (auto simp: lrc_time_pattern_at_def split: Option.bind_splits)
  from assms 1 2 3 4 5 obtain r6 where 6: "re_digits 2 r5 = Some (cs, r6)"
    by (auto simp: lrc_time_pattern_at_def split: Option.bind_splits)
  from assms 1 2 3 4 5 6 have 7: "re_char (\<lambda>c. c = CHR '']'') r6 = Some rest"
    by (auto simp: lrc_time_pattern_at_def split: Option.bind_splits)
  from re_char_SomeD [OF 1] re_digits_SomeD [OF 2] re_char_SomeD [OF 3] re_digits_SomeD [OF 4]
    re_char_SomeD [OF 5] re_digits_SomeD [OF 6] re_char_SomeD [OF 7]
  show ?thesis by auto
qed

lemma time_pattern_match_shaped: "time_pattern_match str = Some g \<Longrightarrow> time_shaped str"
  unfolding time_shaped_def
  using time_pattern_match_SomeD [of str "fst g" "fst (snd g)" "fst (snd (snd g))" "snd (snd (snd g))"]
  by simp blast

lemma lrc_time_pattern_match_shaped: "lrc_time_pattern_match str = Some g \<Longrightarrow> lrc_shaped str"
proof -
  assume "lrc_time_pattern_match str = Some g"
  then obtain rest where "lrc_time_pattern_at str = Some (g, rest)"
    by (auto simp: lrc_time_pattern_match_def)
  then have "lrc_time_pattern_at str = Some ((fst g, fst (snd g), snd (snd g)), rest)" by simp
  from lrc_time_pattern_at_SomeD [OF this] show ?thesis
    unfolding lrc_shaped_def by blast
qed

lemma time_shaped_Cons: "time_shaped (c # r) \<Longrightarrow> is_digit c"
  by (auto simp: time_shaped_def digit_run_def list_all_iff Cons_eq_append_conv)

lemma time_shaped_Nil: "\<not> time_shaped []"
  by (auto simp: time_shaped_def digit_run_def)

lemma lrc_shaped_Cons: "lrc_shaped (c # r) \<Longrightarrow> c = CHR ''[''"
  by (auto simp: lrc_shaped_def)


lemma read_file_format:
  "read_file file = Inr (fmt, subtitles) \<Longrightarrow> fmt = ''srt'' \<or> fmt = ''vtt'' \<or> fmt = ''lrc''"
  by (auto simp: read_file_def Let_def parse_srt_def parse_vtt_def parse_lrc_def map_sum_def
      split: if_splits sum.splits)


lemma join_Cons: "join sep (x # xs) = x @ concat (map (\<lambda>y. sep @ y) xs)"
  by (induction xs arbitrary: x) simp_all


section \<open>Rounding to a double\<close>

lemma pow2_powi: "pow2 e = 2 powi e"
  by (simp add: pow2_def power_int_def inverse_eq_divide power_one_over)

lemma powi2_less_imp: "(2::rat) powi a < 2 powi b \<Longrightarrow> a < b"
proof (rule ccontr)
  assume lt: "(2::rat) powi a < 2 powi b" and "\<not> a < b"
  then have "b \<le> a" by simp
  then have "(2::rat) powi b \<le> 2 powi a" by (intro power_int_increasing) simp_all
  with lt show False by simp
qed

lemma flog2_bounds:
  assumes "0 < x"
  shows "2 powi (flog2 x) \<le> x" and "x < 2 powi (flog2 x + 1)"
proof -
  have "2 powi (flog2 x) \<le> x \<and> x < 2 powi (flog2 x + 1)"
  proof (cases "1 \<le> x")
    case True
    define n where "n = \<lfloor>x\<rfloor>"
    from True have n: "1 \<le> n" by (simp add: n_def le_floor_iff)
    then have npos: "0 < n" by simp
    define b where "b = bitlen n"
    from bitlen_bounds [OF npos] have lo: "2 ^ nat (b - 1) \<le> n" and hi: "n < 2 ^ nat b"
      by (simp_all add: b_def)
    from npos have b1: "1 \<le> b"
      using bitlen_eq_zero_iff [of n] bitlen_nonneg [of n] by (simp add: b_def)
    have fl: "flog2 x = b - 1" using True by (simp add: flog2_def n_def b_def)
    from lo have "(of_int (2 ^ nat (b - 1)) :: rat) \<le> of_int n" by (simp only: of_int_le_iff)
    also have "of_int n \<le> x" by (simp add: n_def)
    finally have 1: "2 powi (b - 1) \<le> x" using b1 by (simp add: power_int_def)
    from hi have "n + 1 \<le> 2 ^ nat b" by simp
    then have "(of_int (n + 1) :: rat) \<le> of_int (2 ^ nat b)" by (simp only: of_int_le_iff)
    moreover have "x < of_int (n + 1)" unfolding n_def by simp linarith
    ultimately have 2: "x < 2 powi b" using b1 by (simp add: power_int_def)
    from 1 2 fl show ?thesis by simp
  next
    case False
    define y where "y = 1 / x"
    from False assms have y1: "1 < y" by (simp add: y_def)
    define n where "n = \<lceil>y\<rceil> - 1"
    from y1 have "1 < \<lceil>y\<rceil>" by (simp add: less_ceiling_iff)
    then have npos: "0 < n" by (simp add: n_def)
    define k where "k = bitlen n"
    from bitlen_bounds [OF npos] have lo: "2 ^ nat (k - 1) \<le> n" and hi: "n < 2 ^ nat k"
      by (simp_all add: k_def)
    from npos have k1: "1 \<le> k"
      using bitlen_eq_zero_iff [of n] bitlen_nonneg [of n] by (simp add: k_def)
    have fl: "flog2 x = - k" using False by (simp add: flog2_def n_def k_def y_def)
    have "y \<le> of_int (n + 1)" unfolding n_def by simp
    also from hi have "n + 1 \<le> 2 ^ nat k" by simp
    then have "(of_int (n + 1) :: rat) \<le> of_int (2 ^ nat k)" by (simp only: of_int_le_iff)
    finally have "y \<le> 2 ^ nat k" by simp
    then have "1 / x \<le> 2 ^ nat k" by (simp add: y_def)
    with assms have "1 / 2 ^ nat k \<le> x" by (simp add: field_simps)
    then have 1: "2 powi (- k) \<le> x"
      using k1 by (simp add: power_int_def inverse_eq_divide power_one_over)
    from lo have "(of_int (2 ^ nat (k - 1)) :: rat) \<le> of_int n" by (simp only: of_int_le_iff)
    also have "of_int n < y" unfolding n_def by simp linarith
    finally have "2 ^ nat (k - 1) < 1 / x" by (simp add: y_def)
    with assms have "x < 1 / 2 ^ nat (k - 1)" by (simp add: field_simps)
    moreover have "2 powi (- k + 1) = (1 / 2 ^ nat (k - 1) :: rat)"
    proof (cases "k = 1")
      case True
      then show ?thesis by simp
    next
      case False
      with k1 have "- k + 1 < 0" by simp
      then show ?thesis
        by (simp add: power_int_def inverse_eq_divide power_one_over algebra_simps)
    qed
    ultimately have 2: "x < 2 powi (- k + 1)" by simp
    from 1 2 fl show ?thesis by simp
  qed
  then show "2 powi (flog2 x) \<le> x" and "x < 2 powi (flog2 x + 1)" by simp_all
qed

lemma flog2_unique:
  assumes "2 powi k \<le> x" and "x < 2 powi (k + 1)"
  shows "flog2 x = k"
proof -
  have pos: "0 < x" using assms(1) by (rule less_le_trans [rotated]) simp
  note b = flog2_bounds [OF pos]
  have "\<not> flog2 x < k"
  proof
    assume "flog2 x < k"
    then have "flog2 x + 1 \<le> k" by simp
    then have "(2::rat) powi (flog2 x + 1) \<le> 2 powi k" by (intro power_int_increasing) simp_all
    with b(2) assms(1) show False by simp
  qed
  moreover have "\<not> k < flog2 x"
  proof
    assume "k < flog2 x"
    then have "k + 1 \<le> flog2 x" by simp
    then have "(2::rat) powi (k + 1) \<le> 2 powi (flog2 x)" by (intro power_int_increasing) simp_all
    with b(1) assms(2) show False by simp
  qed
  ultimately show ?thesis by simp
qed

lemma round_half_even_error: "\<bar>of_int (round_half_even m) - m\<bar> \<le> 1 / 2"
proof -
  have "of_int \<lfloor>m\<rfloor> \<le> m" "m < of_int \<lfloor>m\<rfloor> + 1" by linarith+
  then show ?thesis
    by (auto simp: round_half_even_def Let_def abs_le_iff)
qed

lemma round_half_even_of_int [simp]: "round_half_even (of_int n) = n"
  by (simp add: round_half_even_def)



lemma fl_pos:
  assumes "0 < x"
  shows "fl x = of_int (round_half_even (x / 2 powi (flog2 x - 52))) * 2 powi (flog2 x - 52)"
  using assms by (simp add: fl_def pow2_powi Let_def)

lemma fl_minus: "fl (- x) = - fl x"
  by (simp add: fl_def Let_def sgn_minus)


lemma fl_error_pos:
  assumes "0 < x"
  shows "\<bar>fl x - x\<bar> \<le> 2 powi (flog2 x - 53)"
proof -
  define e where "e = flog2 x - 52"
  define m where "m = x / 2 powi e"
  have p: "(0::rat) < 2 powi e" by simp
  have flx: "fl x = of_int (round_half_even m) * 2 powi e"
    using fl_pos [OF assms] by (simp add: e_def m_def)
  have "fl x - x = of_int (round_half_even m) * 2 powi e - x"
    by (simp only: flx)
  also have "\<dots> = of_int (round_half_even m) * 2 powi e - m * 2 powi e"
    by (simp add: m_def)
  also have "\<dots> = (of_int (round_half_even m) - m) * 2 powi e"
    by (simp add: algebra_simps)
  finally have "\<bar>fl x - x\<bar> = \<bar>of_int (round_half_even m) - m\<bar> * 2 powi e"
    by (simp add: abs_mult)
  also have "\<dots> \<le> 1 / 2 * 2 powi e"
    using round_half_even_error [of m] p by (intro mult_right_mono) simp_all
  also have "\<dots> = 2 powi (e - 1)"
    by (simp add: power_int_diff)
  finally show ?thesis by (simp add: e_def)
qed

lemma fl_error: "\<bar>fl x - x\<bar> \<le> \<bar>x\<bar> / 2 ^ 53"
proof -
  have pos: "\<bar>fl y - y\<bar> \<le> y / 2 ^ 53" if "0 < y" for y
  proof -
    have "\<bar>fl y - y\<bar> \<le> 2 powi (flog2 y - 53)" by (rule fl_error_pos [OF that])
    also have "\<dots> = 2 powi (flog2 y) / 2 ^ 53" by (simp add: power_int_diff)
    also have "\<dots> \<le> y / 2 ^ 53"
      using flog2_bounds(1) [OF that] by (simp add: divide_right_mono)
    finally show ?thesis .
  qed
  consider "x = 0" | "0 < x" | "x < 0" by linarith
  then show ?thesis
  proof cases
    case 1
    then show ?thesis by (simp add: fl_def)
  next
    case 2
    with pos [of x] show ?thesis by simp
  next
    case 3
    with pos [of "- x"] show ?thesis by (simp add: fl_minus abs_minus_commute)
  qed
qed

lemma fl_nonneg: "0 \<le> x \<Longrightarrow> 0 \<le> fl x"
proof -
  assume "0 \<le> x"
  have "\<bar>fl x - x\<bar> \<le> \<bar>x\<bar> / 2 ^ 53" by (rule fl_error)
  also have "\<dots> \<le> \<bar>x\<bar>" by (simp add: field_simps)
  finally show ?thesis using \<open>0 \<le> x\<close> by (simp add: abs_le_iff)
qed

lemma fl_exact:
  assumes "\<bar>M\<bar> < 2 ^ 53"
  shows "fl (of_int M * 2 powi e) = of_int M * 2 powi e"
proof -
  have pos: "fl (of_int N * 2 powi e) = of_int N * 2 powi e" if N: "0 < N" "N < 2 ^ 53" for N :: int
  proof -
    define x :: rat where "x = of_int N * 2 powi e"
    have xpos: "0 < x" using N by (simp add: x_def)
    define E where "E = flog2 x - 52"
    from N(2) have "(of_int N :: rat) < of_int (2 ^ 53)" by (simp only: of_int_less_iff)
    then have "x < 2 ^ 53 * 2 powi e" by (simp add: x_def)
    also have "\<dots> = 2 powi (53 + e)" by (subst power_int_add) simp_all
    finally have "2 powi (flog2 x) < (2::rat) powi (53 + e)"
      using flog2_bounds(1) [OF xpos] by simp
    then have "flog2 x < 53 + e" by (rule powi2_less_imp)
    then have le: "E \<le> e" by (simp add: E_def)
    have "x / 2 powi E = of_int N * 2 powi (e - E)"
      by (simp add: x_def power_int_diff)
    also have "\<dots> = of_int (N * 2 ^ nat (e - E))"
      using le by (simp add: power_int_def)
    finally have "round_half_even (x / 2 powi E) = N * 2 ^ nat (e - E)"
      by (simp only: round_half_even_of_int)
    then have "fl x = of_int (N * 2 ^ nat (e - E)) * 2 powi E"
      using fl_pos [OF xpos] by (simp add: E_def)
    also have "\<dots> = of_int N * 2 powi (e - E) * 2 powi E"
      using le by (simp add: power_int_def)
    also have "\<dots> = of_int N * 2 powi e"
      by (simp add: power_int_diff)
    finally show ?thesis by (simp add: x_def)
  qed
  consider "M = 0" | "0 < M" | "M < 0" by linarith
  then show ?thesis
  proof cases
    case 1
    then show ?thesis by (simp add: fl_def)
  next
    case 2
    with assms pos [of M] show ?thesis by simp
  next
    case 3
    with assms pos [of "- M"] have "fl (- (of_int M * 2 powi e)) = - (of_int M * 2 powi e)"
      by simp
    then show ?thesis by (simp add: fl_minus)
  qed
qed

lemma fl_of_int: "\<bar>n\<bar> < 2 ^ 53 \<Longrightarrow> fl (of_int n) = of_int n"
  using fl_exact [of n 0] by simp

lemma fl_of_nat: "n < 2 ^ 53 \<Longrightarrow> fl (of_nat n) = of_nat n"
  using fl_of_int [of "int n"] by simp

section \<open>What \<open>format_time\<close> writes\<close>




lemma fl_less_scaled:
  assumes "2 powi k \<le> y" "y < 2 powi (k + 1)" "y * 2 powi (52 - k) < of_int N - 1 / 2"
  shows "fl y < of_int N * 2 powi (k - 52)"
proof -
  have pos: "0 < y" using assms(1) by (rule less_le_trans [rotated]) simp
  have fk: "flog2 y = k" by (rule flog2_unique [OF assms(1,2)])
  have sc: "y / 2 powi (k - 52) = y * 2 powi (52 - k)"
    by (simp add: power_int_diff)
  define r where "r = round_half_even (y * 2 powi (52 - k))"
  have "of_int r \<le> y * 2 powi (52 - k) + 1 / 2"
    using round_half_even_error [of "y * 2 powi (52 - k)"] unfolding r_def by linarith
  with assms(3) have "(of_int r :: rat) < of_int N" by linarith
  then have "(of_int r :: rat) * 2 powi (k - 52) < of_int N * 2 powi (k - 52)"
    by (intro mult_strict_right_mono) simp_all
  moreover have "fl y = of_int r * 2 powi (k - 52)"
    using fl_pos [OF pos] by (simp add: fk sc r_def)
  ultimately show ?thesis by simp
qed


lemma fl_times_100_less:
  assumes "0 \<le> f" "f \<le> 1 - 1 / 2 ^ 53"
  shows "fl (f * 100) < 100"
proof (cases "f * 100 < 64")
  case True
  have "\<bar>fl (f * 100) - f * 100\<bar> \<le> \<bar>f * 100\<bar> / 2 ^ 53" by (rule fl_error)
  also have "\<dots> \<le> 1" using assms True by simp
  finally show ?thesis using True by (simp add: abs_le_iff)
next
  case False
  have "fl (f * 100) < of_int (100 * 2 ^ 46) * 2 powi (6 - 52)"
  proof (rule fl_less_scaled)
    show "2 powi 6 \<le> f * 100" using False by simp
    show "f * 100 < 2 powi (6 + 1)" using assms by simp
    show "f * 100 * 2 powi (52 - 6) < of_int (100 * 2 ^ 46) - 1 / 2"
      using assms by simp
  qed
  then show ?thesis by (simp add: power_int_minus)
qed

lemma py_int_of_int [simp]: "py_int (of_int z) = z"
  by (simp add: py_int_def)



















section \<open>The LRC parser\<close>

lemma find_append:
  "find P (xs @ ys) = (case find P xs of Some x \<Rightarrow> Some x | None \<Rightarrow> find P ys)"
  by (induction xs) simp_all

lemma find_rev_Some:
  "find P (rev xs) = Some x \<Longrightarrow>
     \<exists>before after. xs = before @ x # after \<and> P x \<and> (\<forall>y\<in>set after. \<not> P y)"
proof (induction xs rule: rev_induct)
  case Nil
  then show ?case by simp
next
  case (snoc y ys)
  show ?case
  proof (cases "P y")
    case True
    with snoc.prems have "x = y" by simp
    with True have "ys @ [y] = ys @ x # [] \<and> P x \<and> (\<forall>y\<in>set []. \<not> P y)" by simp
    then show ?thesis by blast
  next
    case False
    with snoc.prems have "find P (rev ys) = Some x" by simp
    from snoc.IH [OF this] obtain before after
      where "ys = before @ x # after" "P x" "\<forall>y\<in>set after. \<not> P y" by blast
    with False have "ys @ [y] = before @ x # (after @ [y]) \<and> P x \<and> (\<forall>z\<in>set (after @ [y]). \<not> P z)"
      by simp
    then show ?thesis by blast
  qed
qed

lemma map_of_foldl_update:
  "map_of (foldl (\<lambda>mp tag. AList.update (f tag) v mp) mp tags) k
     = (if k \<in> f ` set tags then Some v else map_of mp k)"
  by (induction tags arbitrary: mp) (auto simp: update_conv')

lemma distinct_foldl_update:
  "distinct (map fst mp) \<Longrightarrow>
     distinct (map fst (foldl (\<lambda>mp tag. AList.update (f tag) v mp) mp tags))"
  by (induction tags arbitrary: mp) (simp_all add: distinct_update)

lemma lrc_line_map_of:
  "map_of (lrc_line mp line) k
     = (if k \<in> set (line_tags line) then Some (line_text line) else map_of mp k)"
  by (simp add: lrc_line_def Let_def line_tags_def line_text_def map_of_foldl_update)

lemma lrc_line_distinct: "distinct (map fst mp) \<Longrightarrow> distinct (map fst (lrc_line mp line))"
  by (simp add: lrc_line_def Let_def distinct_foldl_update)

lemma lrc_lines_map_of:
  "map_of (foldl lrc_line mp lines) k
     = (case find (\<lambda>l. k \<in> set (line_tags l)) (rev lines) of
          Some l \<Rightarrow> Some (line_text l)
        | None \<Rightarrow> map_of mp k)"
  by (induction lines arbitrary: mp)
     (auto simp: find_append lrc_line_map_of split: option.splits)

lemma lrc_lines_distinct:
  "distinct (map fst mp) \<Longrightarrow> distinct (map fst (foldl lrc_line mp lines))"
  by (induction lines arbitrary: mp) (simp_all add: lrc_line_distinct)

lemma lrc_lines_keys:
  "fst ` set (foldl lrc_line [] lines) = (\<Union>l\<in>set lines. set (line_tags l))"
proof -
  have "dom (map_of (foldl lrc_line [] lines)) = (\<Union>l\<in>set lines. set (line_tags l))"
    by (auto simp: dom_def lrc_lines_map_of find_None_iff split: option.splits
        dest: find_Some_iff [THEN iffD1])
  then show ?thesis by (simp add: dom_map_of_conv_image_fst)
qed

lemma lrc_loop_eq:
  assumes "set ts \<subseteq> dom (map_of mp)"
  shows "lrc_loop ts mp i acc = Inr (acc @ map (lrc_cue ts mp) [i..<length ts])"
proof (induction "length ts - i" arbitrary: i acc)
  case 0
  then show ?case by (subst lrc_loop.simps) simp
next
  case (Suc n)
  then have lt: "i < length ts" and n: "n = length ts - (i + 1)" by simp_all
  from lt assms obtain v where v: "map_of mp (ts ! i) = Some v"
    by (meson domD nth_mem subsetD)
  have "lrc_loop ts mp i acc = lrc_loop ts mp (i + 1) (acc @ [lrc_cue ts mp i])"
    using lt v by (subst lrc_loop.simps) (simp add: idx_def lrc_cue_def)
  also have "\<dots> = Inr ((acc @ [lrc_cue ts mp i]) @ map (lrc_cue ts mp) [i + 1..<length ts])"
    by (rule Suc.hyps(1) [OF n])
  also have "\<dots> = Inr (acc @ map (lrc_cue ts mp) [i..<length ts])"
    using lt by (simp add: upt_conv_Cons)
  finally show ?case .
qed

lemma parse_lrc_eq:
  "parse_lrc lines = Inr (''lrc'',
     map (lrc_cue (sort (map fst (foldl lrc_line [] lines))) (foldl lrc_line [] lines))
       [0..<length (foldl lrc_line [] lines)])"
proof -
  define mp where "mp = foldl lrc_line [] lines"
  define ts where "ts = sort (map fst mp)"
  have "set ts \<subseteq> dom (map_of mp)"
    by (simp add: ts_def dom_map_of_conv_image_fst)
  from lrc_loop_eq [OF this, of 0 "[]"] show ?thesis
    by (simp add: parse_lrc_def Let_def mp_def [symmetric] ts_def [symmetric])
       (simp add: ts_def)
qed

lemma lrc_findall_runs:
  "(m, s, cs) \<in> set (lrc_findall str) \<Longrightarrow> digit_run 2 m \<and> digit_run 2 s \<and> digit_run 2 cs"
proof (induction str rule: lrc_findall.induct)
  case 1
  then show ?case by simp
next
  case (2 c str)
  show ?case
  proof (cases "lrc_time_pattern_at (c # str)")
    case None
    with 2 show ?thesis by simp
  next
    case (Some gr)
    show ?thesis
    proof (cases "(m, s, cs) = fst gr")
      case True
      with Some have "lrc_time_pattern_at (c # str) = Some ((m, s, cs), snd gr)" by simp
      from lrc_time_pattern_at_SomeD [OF this] show ?thesis by simp
    next
      case False
      with Some "2.prems" have "(m, s, cs) \<in> set (lrc_findall (snd gr))" by simp
      with "2.IH"(2) [OF Some] show ?thesis by simp
    qed
  qed
qed

lemma digit_val_le: "is_digit c \<Longrightarrow> digit_val c \<le> 9"
  by (auto simp: is_digit_def digit_val_def)

lemma int_of_digits_le_99:
  assumes "digit_run 2 d"
  shows "int_of_digits d \<le> 99"
proof -
  from assms consider a where "d = [a]" "is_digit a" | a b where "d = [a, b]" "is_digit a" "is_digit b"
    by (cases d; cases "tl d") (auto simp: digit_run_def)
  then show ?thesis
  proof cases
    case 1
    with digit_val_le [of a] show ?thesis by (simp add: int_of_digits_def)
  next
    case 2
    with digit_val_le [of a] digit_val_le [of b] show ?thesis by (simp add: int_of_digits_def)
  qed
qed

lemma fl_le_twice: "0 \<le> x \<Longrightarrow> fl x \<le> 2 * x"
proof -
  assume x: "0 \<le> x"
  have "\<bar>fl x - x\<bar> \<le> \<bar>x\<bar> / 2 ^ 53" by (rule fl_error)
  also have "\<dots> \<le> x" using x by (simp add: field_simps)
  finally show ?thesis by (simp add: abs_le_iff)
qed

lemma tag_seconds_bounds:
  assumes "digit_run 2 m" "digit_run 2 s" "digit_run 2 cs"
  shows "0 \<le> tag_seconds (m, s, cs)" and "tag_seconds (m, s, cs) \<le> 12082"
proof -
  define n where "n = int_of_digits m * 60 + int_of_digits s"
  define c where "c = int_of_digits cs"
  from assms have n: "n \<le> 6039" and c: "c \<le> 99"
    using int_of_digits_le_99 [of m] int_of_digits_le_99 [of s] int_of_digits_le_99 [of cs]
    by (simp_all add: n_def c_def)
  define q where "q = fl (of_nat c / 100)"
  have q0: "0 \<le> q" unfolding q_def by (rule fl_nonneg) simp
  have "q \<le> 2 * (of_nat c / 100)" unfolding q_def by (rule fl_le_twice) simp
  also have "\<dots> \<le> 2" using c by simp
  finally have q2: "q \<le> 2" .
  have ts: "tag_seconds (m, s, cs) = fl (of_nat n + q)"
    by (simp add: tag_seconds_def fadd_def fdiv_def n_def c_def q_def)
  from q0 have nn: "(0::rat) \<le> of_nat n + q" by simp
  show "0 \<le> tag_seconds (m, s, cs)" unfolding ts by (rule fl_nonneg [OF nn])
  have "fl (of_nat n + q) \<le> 2 * (of_nat n + q)" by (rule fl_le_twice [OF nn])
  also have "\<dots> \<le> 2 * (6039 + 2)"
    using n q2 by (intro mult_left_mono add_mono) simp_all
  finally show "tag_seconds (m, s, cs) \<le> 12082" unfolding ts by simp
qed

lemma line_tags_bounds:
  assumes "k \<in> set (line_tags line)"
  shows "0 \<le> k \<and> k \<le> 12082"
proof -
  from assms obtain m s cs where "(m, s, cs) \<in> set (lrc_findall (strip line))"
    and k: "k = tag_seconds (m, s, cs)"
    by (auto simp: line_tags_def)
  from lrc_findall_runs [OF this(1)] tag_seconds_bounds [of m s cs] k show ?thesis by simp
qed

lemma fadd_5_greater:
  assumes "0 \<le> x" "x \<le> 12082"
  shows "x < fadd x 5"
proof -
  have "\<bar>fl (x + 5) - (x + 5)\<bar> \<le> \<bar>x + 5\<bar> / 2 ^ 53" by (rule fl_error)
  also have "\<dots> \<le> 12087 / 2 ^ 53" using assms by (simp add: divide_right_mono)
  also have "\<dots> < 1" by simp
  finally show ?thesis by (simp add: fadd_def abs_less_iff)
qed

lemma lrc_cues_starts: "map (fst \<circ> lrc_cue ts mp) [0..<length ts] = ts"
  by (simp add: lrc_cue_def comp_def map_nth)

lemma parse_lrc_starts:
  assumes "parse_lrc lines = Inr (fmt, subtitles)"
  shows "map fst subtitles = sort (map fst (foldl lrc_line [] lines))"
proof -
  define mp where "mp = foldl lrc_line [] lines"
  define ts where "ts = sort (map fst mp)"
  have len: "length mp = length ts" by (simp add: ts_def)
  from assms have "subtitles = map (lrc_cue ts mp) [0..<length ts]"
    by (simp add: parse_lrc_eq mp_def [symmetric] ts_def [symmetric] len)
  then show ?thesis
    by (simp add: lrc_cues_starts mp_def [symmetric] ts_def [symmetric])
qed

lemma parse_lrc_cue:
  assumes "parse_lrc lines = Inr (fmt, subtitles)" and "j < length subtitles"
  shows "fst (snd (subtitles ! j)) =
      (if j + 1 < length subtitles then fst (subtitles ! (j + 1))
       else fadd (fst (subtitles ! j)) 5)"
    and "snd (snd (subtitles ! j)) = the (map_of (foldl lrc_line [] lines) (fst (subtitles ! j)))"
proof -
  define mp where "mp = foldl lrc_line [] lines"
  define ts where "ts = sort (map fst mp)"
  have len: "length mp = length ts" by (simp add: ts_def)
  from assms(1) have subs: "subtitles = map (lrc_cue ts mp) [0..<length ts]"
    by (simp add: parse_lrc_eq mp_def [symmetric] ts_def [symmetric] len)
  then have l: "length subtitles = length ts" by simp
  have nth: "subtitles ! i = lrc_cue ts mp i" if "i < length ts" for i
    using that by (simp add: subs)
  from assms(2) l have j: "j < length ts" by simp
  show "fst (snd (subtitles ! j)) =
      (if j + 1 < length subtitles then fst (subtitles ! (j + 1))
       else fadd (fst (subtitles ! j)) 5)"
    using j by (simp add: nth l lrc_cue_def)
  show "snd (snd (subtitles ! j)) = the (map_of (foldl lrc_line [] lines) (fst (subtitles ! j)))"
    using j by (simp add: nth lrc_cue_def mp_def)
qed

lemma parse_lrc_total: "\<exists>subtitles. parse_lrc lines = Inr (''lrc'', subtitles)"
  by (simp add: parse_lrc_eq)

lemma parse_lrc_starts_strict:
  assumes "parse_lrc lines = Inr (fmt, subtitles)"
  shows "sorted_wrt (<) (map fst subtitles)"
proof -
  have "distinct (map fst (foldl lrc_line [] lines))"
    by (rule lrc_lines_distinct) simp
  then show ?thesis
    unfolding parse_lrc_starts [OF assms] by (simp add: strict_sorted_iff)
qed

lemma parse_lrc_start_set:
  assumes "parse_lrc lines = Inr (fmt, subtitles)"
  shows "set (map fst subtitles) = (\<Union>l\<in>set lines. set (line_tags l))"
  unfolding parse_lrc_starts [OF assms] using lrc_lines_keys [of lines] by simp

section \<open>Evaluation at concrete inputs\<close>

text \<open>
  Closed facts about the functions at the inputs that the examples below use. Each is
  computed from the code equations; the theorems on whole documents combine them.
\<close>

lemma lower_srt: "lower ''.srt'' = ''.srt''"
  by code_simp

lemma lower_vtt: "lower ''.vtt'' = ''.vtt''"
  by code_simp

lemma lower_lrc: "lower ''.lrc'' = ''.lrc''"
  by code_simp

lemma ex1_lines:
  "split (strip ''1\<newline>00:00:01,001 --> 00:00:02,000\<newline>Hi'') [newline]
     = [''1'', ''00:00:01,001 --> 00:00:02,000'', ''Hi'']"
  by code_simp

lemma ex1_parse_srt:
  "parse_srt [''1'', ''00:00:01,001 --> 00:00:02,000'', ''Hi'']
     = Inr (''srt'', [(2254051613498933 / 2251799813685248, 2, ''Hi'')])"
  by code_simp

lemma ex1_format_start:
  "format_time (2254051613498933 / 2251799813685248) ''vtt'' = ''00:00:01.000''"
  by code_simp

lemma ex1_format_end: "format_time 2 ''vtt'' = ''00:00:02.000''"
  by code_simp

lemma ex1_to_vtt:
  "to_vtt [(2254051613498933 / 2251799813685248, 2, ''Hi'')]
     = ''WEBVTT\<newline>\<newline>00:00:01.000 --> 00:00:02.000\<newline>Hi\<newline>''"
  by (simp add: to_vtt_def ex1_format_start ex1_format_end newline_def)

lemma ex1_vtt_lines:
  "split (strip ''WEBVTT\<newline>\<newline>00:00:01.000 --> 00:00:02.000\<newline>Hi\<newline>'') [newline]
     = [''WEBVTT'', '''', ''00:00:01.000 --> 00:00:02.000'', ''Hi'']"
  by code_simp

lemma ex1_parse_vtt:
  "parse_vtt [''WEBVTT'', '''', ''00:00:01.000 --> 00:00:02.000'', ''Hi'']
     = Inr (''vtt'', [(1, 2, ''Hi'')])"
  by code_simp

lemma ex2_lines:
  "split (strip ''1\<newline>00:00:01,000 --> 00:00:02,000\<newline>Hello\<newline>\<newline>2'') [newline]
     = [''1'', ''00:00:01,000 --> 00:00:02,000'', ''Hello'', '''', ''2'']"
  by code_simp

lemma ex2_parse_srt:
  "parse_srt [''1'', ''00:00:01,000 --> 00:00:02,000'', ''Hello'', '''', ''2'']
     = Inl IndexError"
  by code_simp

lemma ex3_lines: "split (strip ''1'') [newline] = [''1'']"
  by code_simp

lemma ex3_parse_srt: "parse_srt [''1''] = Inl IndexError"
  by code_simp

lemma lower_TXT: "lower ''.TXT'' = ''.txt''"
  by code_simp

lemma ex5_lines: "split (strip ''WEBVTT'') [newline] = [''WEBVTT'']"
  by code_simp

lemma ex5_parse_vtt: "parse_vtt [''WEBVTT''] = Inr (''vtt'', [])"
  by code_simp









lemma ex6_lines:
  "split (strip ''[00:01.00]Line A\<newline>[00:05.00]Line B'') [newline]
     = [''[00:01.00]Line A'', ''[00:05.00]Line B'']"
  by code_simp

lemma ex6_parse_lrc:
  "parse_lrc [''[00:01.00]Line A'', ''[00:05.00]Line B'']
     = Inr (''lrc'', [(1, 5, ''Line A''), (5, 10, ''Line B'')])"
  by code_simp

lemma ex6_format_1: "format_time 1 ''srt'' = ''00:00:01,000''"
  by code_simp

lemma ex6_format_5: "format_time 5 ''srt'' = ''00:00:05,000''"
  by code_simp

lemma ex6_format_10: "format_time 10 ''srt'' = ''00:00:10,000''"
  by code_simp

lemma str_int_1: "str_int 1 = ''1''"
  by code_simp

lemma str_int_2: "str_int 2 = ''2''"
  by code_simp

lemma ex6_to_srt:
  "to_srt [(1, 5, ''Line A''), (5, 10, ''Line B'')]
     = ''1\<newline>00:00:01,000 --> 00:00:05,000\<newline>Line A\<newline>\<newline>2\<newline>00:00:05,000 --> 00:00:10,000\<newline>Line B\<newline>''"
  by (simp add: to_srt_def enumerate_eq_zip upt_conv_Cons ex6_format_1 ex6_format_5 ex6_format_10
      str_int_1 str_int_2 newline_def)

lemma ex7_parse_lrc:
  "parse_lrc [''[00:02.00]first'', ''[00:02.00]second''] = Inr (''lrc'', [(2, 7, ''second'')])"
  by code_simp

lemma ex7_tags_first: "line_tags ''[00:02.00]first'' = [2]"
  by code_simp

lemma ex7_tags_second: "line_tags ''[00:02.00]second'' = [2]"
  by code_simp

lemma ex7_text_second: "line_text ''[00:02.00]second'' = ''second''"
  by code_simp

lemma ex8_parse_vtt:
  "parse_vtt [''00:00:02.000 --> 00:00:01.000''] = Inr (''vtt'', [(2, 1, '''')])"
  by code_simp

lemma c1_match_003:
  "time_pattern_match ''18:12:16,003'' = Some (''18'', ''12'', ''16'', ''003'')"
  by code_simp

lemma c1_match_002:
  "time_pattern_match ''18:12:16,002'' = Some (''18'', ''12'', ''16'', ''002'')"
  by code_simp

lemma c1_fl_003: "fl (3 / 1000) = 3458764513820541 / 1152921504606846976"
  by code_simp

lemma c1_fl_002: "fl (2 / 1000) = 1152921504606847 / 576460752303423488"
  by code_simp

lemma c1_fl_sum_003:
  "fl (65536 + 3458764513820541 / 1152921504606846976) = 2251799916764463 / 34359738368"
  by code_simp

lemma c1_fl_sum_002:
  "fl (65536 + 1152921504606847 / 576460752303423488) = 4503599764809449 / 68719476736"
  by code_simp

lemma c1_parse_003:
  "parse_time ''18:12:16,003'' ''srt'' = 2251799916764463 / 34359738368"
proof -
  have a: "parse_time ''18:12:16,003'' ''srt'' = fadd 65536 (fdiv 3 1000)"
    by (simp add: parse_time_def c1_match_003 int_of_digits_def digit_val_def)
  have b: "fdiv 3 1000 = 3458764513820541 / 1152921504606846976"
    unfolding fdiv_def by (rule c1_fl_003)
  have c: "fadd 65536 (3458764513820541 / 1152921504606846976) = 2251799916764463 / 34359738368"
    unfolding fadd_def by (rule c1_fl_sum_003)
  show ?thesis by (simp only: a b c)
qed

lemma c1_parse_002:
  "parse_time ''18:12:16,002'' ''srt'' = 4503599764809449 / 68719476736"
proof -
  have a: "parse_time ''18:12:16,002'' ''srt'' = fadd 65536 (fdiv 2 1000)"
    by (simp add: parse_time_def c1_match_002 int_of_digits_def digit_val_def)
  have b: "fdiv 2 1000 = 1152921504606847 / 576460752303423488"
    unfolding fdiv_def by (rule c1_fl_002)
  have c: "fadd 65536 (1152921504606847 / 576460752303423488) = 4503599764809449 / 68719476736"
    unfolding fadd_def by (rule c1_fl_sum_002)
  show ?thesis by (simp only: a b c)
qed

lemma c1_double: "fl (2251799916764463 / 34359738368) = 2251799916764463 / 34359738368"
  by code_simp

lemma c1_format:
  "format_time (2251799916764463 / 34359738368) ''srt'' = ''18:12:16,002''"
  by code_simp






section \<open>The claims\<close>

subsection \<open>C1: formatting a time and parsing it again\<close>

text \<open>
  C1 says that for every time \<open>t\<close> in the range of a format, \<open>parse_time\<close> of
  \<open>format_time t\<close> lies within the precision of the format from \<open>t\<close>: 1 ms for \<^verbatim>\<open>srt\<close>
  and \<^verbatim>\<open>vtt\<close>. The code exceeds it. The timestamp \<^verbatim>\<open>18:12:16,003\<close> parses to the double
  65536.003, which lies below the decimal; \<open>format_time\<close> takes the integer part of
  the float product of its fraction and 1000, which is 2.99999999697, and writes
  \<^verbatim>\<open>18:12:16,002\<close>, by the truncation that loses the millisecond of C2; this parses to
  the double 65536.002. The two doubles are 68719477/68719476736 seconds apart,
  which is more than 1/1000.
\<close>

theorem format_parse_exceeds_millisecond:
  "parse_time ''18:12:16,003'' ''srt'' = 2251799916764463 / 34359738368 \<and>
   fl (2251799916764463 / 34359738368) = 2251799916764463 / 34359738368 \<and>
   format_time (2251799916764463 / 34359738368) ''srt'' = ''18:12:16,002'' \<and>
   parse_time (format_time (2251799916764463 / 34359738368) ''srt'') ''srt''
     = 4503599764809449 / 68719476736 \<and>
   \<bar>parse_time (format_time (2251799916764463 / 34359738368) ''srt'') ''srt''
      - 2251799916764463 / 34359738368\<bar> = 68719477 / 68719476736 \<and>
   (1 / 1000 :: rat) < 68719477 / 68719476736"
  by (simp add: c1_parse_003 c1_double c1_format c1_parse_002)

subsection \<open>C2: the round trip from SRT to VTT\<close>

text \<open>
  C2 says that parsing a well-formed SRT document, writing the cues with \<open>to_vtt\<close> and
  parsing the result with \<open>parse_vtt\<close> gives the cues of the first parse again, with
  no tolerance. The code does not: on the document of one block
  \<^verbatim>\<open>00:00:01,001 --> 00:00:02,000\<close> the first parse gives the start \<open>fl (1 + fl (1/1000))\<close>,
  the double written 1.001, which lies below 1001/1000; \<open>format_time\<close> multiplies the
  fraction by 1000 and truncates the product 0.99999... to 0 milliseconds, so the VTT
  text says \<^verbatim>\<open>00:00:01.000\<close> and the second parse gives the start 1.
\<close>

theorem srt_vtt_round_trip_loses_millisecond:
  "read_file \<lparr>suffix = ''.srt'',
       read_text = Inr ''1\<newline>00:00:01,001 --> 00:00:02,000\<newline>Hi''\<rparr>
     = Inr (''srt'', [(2254051613498933 / 2251799813685248, 2, ''Hi'')]) \<and>
   convert \<lparr>suffix = ''.srt'',
       read_text = Inr ''1\<newline>00:00:01,001 --> 00:00:02,000\<newline>Hi''\<rparr> ''vtt''
     = Inr ''WEBVTT\<newline>\<newline>00:00:01.000 --> 00:00:02.000\<newline>Hi\<newline>'' \<and>
   read_file \<lparr>suffix = ''.vtt'',
       read_text = Inr ''WEBVTT\<newline>\<newline>00:00:01.000 --> 00:00:02.000\<newline>Hi\<newline>''\<rparr>
     = Inr (''vtt'', [(1, 2, ''Hi'')])"
  by (simp add: convert_def read_file_def lower_srt lower_vtt ex1_lines ex1_parse_srt ex1_to_vtt
      ex1_vtt_lines ex1_parse_vtt)

subsection \<open>C3: the parsers on malformed input\<close>

text \<open>
  C3 says that none of the three parsers raises, whatever the lines are, and names an
  index line as the last line among the malformed inputs. \<open>parse_srt\<close> raises there:
  after an index line it reads \<^verbatim>\<open>lines[i]\<close> at the next index without a test against
  \<^verbatim>\<open>len(lines)\<close>. The second input is a file cut off after the index of its second
  block.
\<close>

theorem parse_srt_index_line_last:
  "parse_srt [''1''] = Inl IndexError \<and>
   read_file \<lparr>suffix = ''.srt'',
       read_text = Inr ''1\<newline>00:00:01,000 --> 00:00:02,000\<newline>Hello\<newline>\<newline>2''\<rparr>
     = Inl IndexError"
  by (simp add: read_file_def lower_srt ex2_lines ex2_parse_srt ex3_parse_srt)

subsection \<open>C4: the same format on both sides\<close>

text \<open>
  C4 says that \<open>convert\<close> raises the same-format error for every input file with one
  of the three extensions when the output format is the format of the input.
  \<open>convert\<close> parses the file before it compares the formats, so on an SRT file that
  ends with an index line the IndexError of \<open>parse_srt\<close> comes first.
\<close>

theorem convert_same_format_index_line_last:
  "convert \<lparr>suffix = ''.srt'', read_text = Inr ''1''\<rparr> ''srt'' = Inl IndexError"
  by (simp add: convert_def read_file_def lower_srt ex3_lines ex3_parse_srt)

subsection \<open>C5: the unsupported formats\<close>

text \<open>
  C5 says that \<open>read_file\<close> raises the unsupported-format error for every file whose
  extension is none of \<^verbatim>\<open>.srt\<close>, \<^verbatim>\<open>.vtt\<close>, \<^verbatim>\<open>.lrc\<close>, and that \<open>convert\<close> raises it for every
  output format that is none of \<^verbatim>\<open>srt\<close>, \<^verbatim>\<open>vtt\<close>, \<^verbatim>\<open>lrc\<close>, given a readable input of a
  supported format. \<open>read_file\<close> reads and decodes the file before it looks at the
  suffix, so a missing file with the extension \<^verbatim>\<open>.txt\<close> raises FileNotFoundError. And
  \<open>convert\<close> parses the input before it looks at the output format, so on the
  readable SRT file that consists of an index line the IndexError of \<open>parse_srt\<close>
  (the defect of C3) comes before the error of the output format \<^verbatim>\<open>ass\<close>.
\<close>

theorem unsupported_format_error_preempted:
  "read_file \<lparr>suffix = ''.txt'', read_text = Inl FileNotFoundError\<rparr> = Inl FileNotFoundError \<and>
   convert \<lparr>suffix = ''.srt'', read_text = Inr ''1''\<rparr> ''ass'' = Inl IndexError"
  by (simp add: convert_def read_file_def lower_srt ex3_lines ex3_parse_srt)

text \<open>
  C5 as amended. A file that cannot be read raises the error of \<^verbatim>\<open>read_text\<close>. For
  every file that can be read and decoded and whose suffix, in lower case, is none of
  \<^verbatim>\<open>.srt\<close>, \<^verbatim>\<open>.vtt\<close>, \<^verbatim>\<open>.lrc\<close>, \<open>read_file\<close> raises the unsupported-format error, with the
  suffix as the path has it, and so does \<open>convert\<close>. For every output format that is
  none of \<^verbatim>\<open>srt\<close>, \<^verbatim>\<open>vtt\<close>, \<^verbatim>\<open>lrc\<close>, \<open>convert\<close> raises the unsupported-format error on every
  input on which \<open>read_file\<close> returns. What \<open>convert\<close> does on an SRT file on which
  \<open>parse_srt\<close> raises is left out.
\<close>

theorem unsupported_format_errors:
  "(read_text file = Inl e \<longrightarrow> read_file file = Inl e) \<and>
   (read_text file = Inr text \<and> lower (suffix file) \<notin> {''.srt'', ''.vtt'', ''.lrc''} \<longrightarrow>
      read_file file = Inl (ValueError (''Unsupported file format: '' @ suffix file)) \<and>
      convert file output_format = Inl (ValueError (''Unsupported file format: '' @ suffix file))) \<and>
   (read_file file = Inr (input_format, subtitles) \<and> output_format \<notin> {''srt'', ''vtt'', ''lrc''} \<longrightarrow>
      convert file output_format = Inl (ValueError (''Unsupported output format: '' @ output_format)))"
proof (intro conjI impI)
  assume "read_text file = Inl e"
  then show "read_file file = Inl e"
    by (simp add: read_file_def)
next
  assume "read_text file = Inr text \<and> lower (suffix file) \<notin> {''.srt'', ''.vtt'', ''.lrc''}"
  then show r: "read_file file = Inl (ValueError (''Unsupported file format: '' @ suffix file))"
    by (simp add: read_file_def)
  then show "convert file output_format = Inl (ValueError (''Unsupported file format: '' @ suffix file))"
    by (simp add: convert_def)
next
  assume a: "read_file file = Inr (input_format, subtitles) \<and> output_format \<notin> {''srt'', ''vtt'', ''lrc''}"
  then have "read_file file = Inr (input_format, subtitles)" by simp
  from read_file_format [OF this] a have "input_format \<noteq> output_format"
    by auto
  with a show "convert file output_format = Inl (ValueError (''Unsupported output format: '' @ output_format))"
    by (simp add: convert_def)
qed

theorem unsupported_format_errors_witness:
  "read_file \<lparr>suffix = ''.srt'', read_text = Inl UnicodeDecodeError\<rparr> = Inl UnicodeDecodeError \<and>
   read_file \<lparr>suffix = ''.TXT'', read_text = Inr ''x''\<rparr>
     = Inl (ValueError ''Unsupported file format: .TXT'') \<and>
   convert \<lparr>suffix = ''.TXT'', read_text = Inr ''x''\<rparr> ''srt''
     = Inl (ValueError ''Unsupported file format: .TXT'') \<and>
   read_file \<lparr>suffix = ''.vtt'', read_text = Inr ''WEBVTT''\<rparr> = Inr (''vtt'', []) \<and>
   convert \<lparr>suffix = ''.vtt'', read_text = Inr ''WEBVTT''\<rparr> ''ass''
     = Inl (ValueError ''Unsupported output format: ass'')"
proof -
  have r: "read_file \<lparr>suffix = ''.vtt'', read_text = Inr ''WEBVTT''\<rparr> = Inr (''vtt'', [])"
    by (simp add: read_file_def lower_vtt ex5_lines ex5_parse_vtt)
  from unsupported_format_errors
    [of "\<lparr>suffix = ''.srt'', read_text = Inl UnicodeDecodeError\<rparr>" UnicodeDecodeError]
  have u: "read_file \<lparr>suffix = ''.srt'', read_text = Inl UnicodeDecodeError\<rparr>
       = Inl UnicodeDecodeError"
    by simp
  from unsupported_format_errors
    [of "\<lparr>suffix = ''.TXT'', read_text = Inr ''x''\<rparr>" _ "''x''" "''srt''"]
  have a: "read_file \<lparr>suffix = ''.TXT'', read_text = Inr ''x''\<rparr>
       = Inl (ValueError ''Unsupported file format: .TXT'') \<and>
     convert \<lparr>suffix = ''.TXT'', read_text = Inr ''x''\<rparr> ''srt''
       = Inl (ValueError ''Unsupported file format: .TXT'')"
    by (simp add: lower_TXT)
  from unsupported_format_errors
    [of "\<lparr>suffix = ''.vtt'', read_text = Inr ''WEBVTT''\<rparr>" _ _ "''ass''" "''vtt''" "[]"] r
  have b: "convert \<lparr>suffix = ''.vtt'', read_text = Inr ''WEBVTT''\<rparr> ''ass''
       = Inl (ValueError ''Unsupported output format: ass'')"
    by simp
  from u a b r show ?thesis by simp
qed

subsection \<open>C6: what \<open>parse_time\<close> returns\<close>

text \<open>
  C6 says that \<open>parse_time\<close> with the format \<^verbatim>\<open>srt\<close> returns 0.0 for every string that
  is not of the shape \<^verbatim>\<open>HH:MM:SS,mmm\<close>, in particular for a timestamp with a dot. It
  does not: \<open>parse_time\<close> matches \<^verbatim>\<open>time_pattern\<close>, whose separator is \<^verbatim>\<open>[,.]\<close>, for both
  \<^verbatim>\<open>srt\<close> and \<^verbatim>\<open>vtt\<close>; the patterns with one separator are compiled and never used.
\<close>

theorem parse_time_srt_accepts_dot: "parse_time ''00:00:01.500'' ''srt'' \<noteq> 0"
proof -
  have "parse_time ''00:00:01.500'' ''srt'' = 3 / 2" by code_simp
  then show ?thesis by simp
qed


text \<open>
  C6 as amended. For the formats \<^verbatim>\<open>srt\<close> and \<^verbatim>\<open>vtt\<close> alike, \<open>parse_time\<close> returns the float
  \<^verbatim>\<open>H*3600 + M*60 + S + ms/1000\<close> for every string that starts with \<^verbatim>\<open>H:M:S<sep>mmm\<close>,
  fields of 1 to 2 digits, 1 to 3 digits of milliseconds (as many as there are, up to
  three), the separator a comma or a dot, whatever follows; it returns 0 for every
  string that does not start so. For \<^verbatim>\<open>lrc\<close> it returns \<^verbatim>\<open>M*60 + S + cs/100\<close> for every
  string that starts with a tag \<^verbatim>\<open>[M:S.c]\<close>, fields of 1 to 2 digits, and 0 for every
  other string. The sums are those of Python: the quotient is rounded, then the sum.
\<close>

theorem parse_time_by_shape:
  "(f = ''srt'' \<or> f = ''vtt'' \<longrightarrow>
      (digit_run 2 h \<and> digit_run 2 m \<and> digit_run 2 s \<and> digit_run 3 ms \<and>
       (sep = CHR '','' \<or> sep = CHR ''.'') \<and> (length ms = 3 \<or> no_digit_ahead rest) \<longrightarrow>
       parse_time (h @ '':'' @ m @ '':'' @ s @ [sep] @ ms @ rest) f
         = fadd (of_nat (int_of_digits h * 3600 + int_of_digits m * 60 + int_of_digits s))
                (fdiv (of_nat (int_of_digits ms)) 1000)) \<and>
      (\<not> time_shaped str \<longrightarrow> parse_time str f = 0)) \<and>
   (f = ''lrc'' \<longrightarrow>
      (digit_run 2 m \<and> digit_run 2 s \<and> digit_run 2 cs \<longrightarrow>
       parse_time (''['' @ m @ '':'' @ s @ ''.'' @ cs @ '']'' @ rest) f
         = fadd (of_nat (int_of_digits m * 60 + int_of_digits s))
                (fdiv (of_nat (int_of_digits cs)) 100)) \<and>
      (\<not> lrc_shaped str \<longrightarrow> parse_time str f = 0))"
proof (intro conjI impI)
  assume f: "f = ''srt'' \<or> f = ''vtt''"
  {
    assume "digit_run 2 h \<and> digit_run 2 m \<and> digit_run 2 s \<and> digit_run 3 ms \<and>
       (sep = CHR '','' \<or> sep = CHR ''.'') \<and> (length ms = 3 \<or> no_digit_ahead rest)"
    then have "time_pattern_match (h @ '':'' @ m @ '':'' @ s @ [sep] @ ms @ rest) = Some (h, m, s, ms)"
      by (intro time_pattern_match_shape) simp_all
    with f show "parse_time (h @ '':'' @ m @ '':'' @ s @ [sep] @ ms @ rest) f
         = fadd (of_nat (int_of_digits h * 3600 + int_of_digits m * 60 + int_of_digits s))
                (fdiv (of_nat (int_of_digits ms)) 1000)"
      by (auto simp: parse_time_def)
  }
  {
    assume "\<not> time_shaped str"
    then have "time_pattern_match str = None"
      using time_pattern_match_shaped [of str] by (cases "time_pattern_match str") auto
    with f show "parse_time str f = 0"
      by (auto simp: parse_time_def)
  }
next
  assume f: "f = ''lrc''"
  {
    assume "digit_run 2 m \<and> digit_run 2 s \<and> digit_run 2 cs"
    then have "lrc_time_pattern_at (''['' @ m @ '':'' @ s @ ''.'' @ cs @ '']'' @ rest)
        = Some ((m, s, cs), rest)"
      by (intro lrc_time_pattern_at_shape) simp_all
    then have "lrc_time_pattern_match (''['' @ m @ '':'' @ s @ ''.'' @ cs @ '']'' @ rest)
        = Some (m, s, cs)"
      by (simp add: lrc_time_pattern_match_def)
    with f show "parse_time (''['' @ m @ '':'' @ s @ ''.'' @ cs @ '']'' @ rest) f
         = fadd (of_nat (int_of_digits m * 60 + int_of_digits s))
                (fdiv (of_nat (int_of_digits cs)) 100)"
      by (simp add: parse_time_def)
  }
  {
    assume "\<not> lrc_shaped str"
    then have "lrc_time_pattern_match str = None"
      using lrc_time_pattern_match_shaped [of str] by (cases "lrc_time_pattern_match str") auto
    with f show "parse_time str f = 0"
      by (simp add: parse_time_def)
  }
qed


theorem parse_time_by_shape_witness:
  "parse_time ''1:02:03.5x'' ''srt'' = fadd 3723 (fdiv 5 1000) \<and>
   parse_time ''abc'' ''srt'' = 0 \<and>
   parse_time ''[01:02.5]la'' ''lrc'' = fadd 62 (fdiv 5 100) \<and>
   parse_time ''00:00:01,000'' ''lrc'' = 0"
proof -
  have runs: "digit_run 2 ''1''" "digit_run 2 ''02''" "digit_run 2 ''03''" "digit_run 3 ''5''"
    "digit_run 2 ''01''" "digit_run 2 ''5''"
    by (simp_all add: digit_run_def is_digit_def)
  have stop: "no_digit_ahead ''x''"
    by (simp add: no_digit_ahead_def is_digit_def)
  have vals: "int_of_digits ''1'' = 1" "int_of_digits ''02'' = 2" "int_of_digits ''03'' = 3"
    "int_of_digits ''5'' = 5" "int_of_digits ''01'' = 1"
    by (simp_all add: int_of_digits_def digit_val_def)
  have not1: "\<not> time_shaped ''abc''"
    using time_shaped_Cons [of "CHR ''a''" "''bc''"] by (auto simp: is_digit_def)
  have not2: "\<not> lrc_shaped ''00:00:01,000''"
    using lrc_shaped_Cons [of "CHR ''0''" "''0:00:01,000''"] by auto
  from parse_time_by_shape [of "''srt''" "''1''" "''02''" "''03''" "''5''" "CHR ''.''" "''x''" "''abc''"]
    runs stop vals not1
  have a: "parse_time ''1:02:03.5x'' ''srt'' = fadd 3723 (fdiv 5 1000) \<and>
      parse_time ''abc'' ''srt'' = 0"
    by simp
  from parse_time_by_shape [of "''lrc''" _ "''01''" "''02''" _ _ "''la''" "''00:00:01,000''" "''5''"]
    runs vals not2
  have b: "parse_time ''[01:02.5]la'' ''lrc'' = fadd 62 (fdiv 5 100) \<and>
      parse_time ''00:00:01,000'' ''lrc'' = 0"
    by simp
  from a b show ?thesis by simp
qed


subsection \<open>C7: the cues of an LRC file\<close>

text \<open>
  C7: for every list of lines \<open>parse_lrc\<close> returns, and it returns the cues sorted
  ascending by start; the end of each cue is the start of the next one, and the end
  of the last cue is its start plus 5 (the float sum). The LRC file of the two lines
  \<^verbatim>\<open>[00:01.00]Line A\<close> and \<^verbatim>\<open>[00:05.00]Line B\<close> gives the cues (1, 5, Line A) and
  (5, 10, Line B), and its conversion to \<^verbatim>\<open>srt\<close> writes them so.
\<close>

theorem parse_lrc_sorted_chained:
  "(\<exists>subtitles. parse_lrc lines = Inr (''lrc'', subtitles) \<and>
      sorted (map fst subtitles) \<and>
      (\<forall>i. i + 1 < length subtitles \<longrightarrow> fst (snd (subtitles ! i)) = fst (subtitles ! (i + 1))) \<and>
      (subtitles \<noteq> [] \<longrightarrow> fst (snd (last subtitles)) = fadd (fst (last subtitles)) 5)) \<and>
   read_file \<lparr>suffix = ''.lrc'', read_text = Inr ''[00:01.00]Line A\<newline>[00:05.00]Line B''\<rparr>
     = Inr (''lrc'', [(1, 5, ''Line A''), (5, 10, ''Line B'')]) \<and>
   convert \<lparr>suffix = ''.lrc'', read_text = Inr ''[00:01.00]Line A\<newline>[00:05.00]Line B''\<rparr> ''srt''
     = Inr ''1\<newline>00:00:01,000 --> 00:00:05,000\<newline>Line A\<newline>\<newline>2\<newline>00:00:05,000 --> 00:00:10,000\<newline>Line B\<newline>''"
proof -
  from parse_lrc_total obtain subtitles where p: "parse_lrc lines = Inr (''lrc'', subtitles)" ..
  have 1: "sorted (map fst subtitles)"
    unfolding parse_lrc_starts [OF p] by simp
  have 2: "fst (snd (subtitles ! i)) = fst (subtitles ! (i + 1))" if "i + 1 < length subtitles" for i
  proof -
    from that have "i < length subtitles" by simp
    from parse_lrc_cue(1) [OF p this] that show ?thesis by simp
  qed
  have 3: "fst (snd (last subtitles)) = fadd (fst (last subtitles)) 5" if "subtitles \<noteq> []"
  proof -
    from that have j: "length subtitles - 1 < length subtitles" by simp
    from that have l: "last subtitles = subtitles ! (length subtitles - 1)" by (rule last_conv_nth)
    from parse_lrc_cue(1) [OF p j] that show ?thesis by (simp add: l)
  qed
  from p 1 2 3 have general: "\<exists>subtitles. parse_lrc lines = Inr (''lrc'', subtitles) \<and>
      sorted (map fst subtitles) \<and>
      (\<forall>i. i + 1 < length subtitles \<longrightarrow> fst (snd (subtitles ! i)) = fst (subtitles ! (i + 1))) \<and>
      (subtitles \<noteq> [] \<longrightarrow> fst (snd (last subtitles)) = fadd (fst (last subtitles)) 5)"
    by blast
  have r: "read_file \<lparr>suffix = ''.lrc'', read_text = Inr ''[00:01.00]Line A\<newline>[00:05.00]Line B''\<rparr>
     = Inr (''lrc'', [(1, 5, ''Line A''), (5, 10, ''Line B'')])"
    by (simp add: read_file_def lower_lrc ex6_lines ex6_parse_lrc)
  have c: "convert \<lparr>suffix = ''.lrc'', read_text = Inr ''[00:01.00]Line A\<newline>[00:05.00]Line B''\<rparr> ''srt''
     = Inr ''1\<newline>00:00:01,000 --> 00:00:05,000\<newline>Line A\<newline>\<newline>2\<newline>00:00:05,000 --> 00:00:10,000\<newline>Line B\<newline>''"
    by (simp add: convert_def r ex6_to_srt)
  from general r c show ?thesis by (intro conjI)
qed


theorem parse_lrc_sorted_chained_witness:
  "parse_lrc [''[00:01.00]Line A'', ''[00:05.00]Line B'']
     = Inr (''lrc'', [(1, 5, ''Line A''), (5, 10, ''Line B'')]) \<and>
   sorted [1, 5 :: rat] \<and> fadd 5 5 = 10"
proof -
  from parse_lrc_sorted_chained [of "[''[00:01.00]Line A'', ''[00:05.00]Line B'']"]
  obtain subtitles where p: "parse_lrc [''[00:01.00]Line A'', ''[00:05.00]Line B'']
        = Inr (''lrc'', subtitles)"
    and s: "sorted (map fst subtitles)"
    and l: "subtitles \<noteq> [] \<longrightarrow> fst (snd (last subtitles)) = fadd (fst (last subtitles)) 5"
    by blast
  from p have subs: "subtitles = [(1, 5, ''Line A''), (5, 10, ''Line B'')]"
    by (simp add: ex6_parse_lrc)
  from s l show ?thesis
    unfolding subs by (simp add: ex6_parse_lrc)
qed


subsection \<open>C8: a timestamp on several lines\<close>

text \<open>
  C8: for every list of lines, each timestamp that occurs on some line gives exactly
  one cue (the starts are distinct and are the timestamps of the lines), and the
  text of the cue is the text of the last line, in the order of the file, that
  carries a tag of this timestamp. Timestamps are compared by their value in
  seconds, as the dictionary does.
\<close>

theorem parse_lrc_last_line_wins:
  "\<exists>subtitles. parse_lrc lines = Inr (''lrc'', subtitles) \<and>
      distinct (map fst subtitles) \<and>
      set (map fst subtitles) = (\<Union>l\<in>set lines. set (line_tags l)) \<and>
      (\<forall>(start, end_t, text)\<in>set subtitles.
         \<exists>before line after. lines = before @ line # after \<and>
           start \<in> set (line_tags line) \<and>
           (\<forall>l\<in>set after. start \<notin> set (line_tags l)) \<and>
           text = line_text line)"
proof -
  from parse_lrc_total obtain subtitles where p: "parse_lrc lines = Inr (''lrc'', subtitles)" ..
  have 1: "distinct (map fst subtitles)"
    using parse_lrc_starts_strict [OF p] by (simp add: strict_sorted_iff)
  have 2: "set (map fst subtitles) = (\<Union>l\<in>set lines. set (line_tags l))"
    by (rule parse_lrc_start_set [OF p])
  have 3: "\<exists>before line after. lines = before @ line # after \<and>
           fst c \<in> set (line_tags line) \<and>
           (\<forall>l\<in>set after. fst c \<notin> set (line_tags l)) \<and>
           snd (snd c) = line_text line" if c: "c \<in> set subtitles" for c
  proof -
    from c obtain j where j: "j < length subtitles" and cj: "c = subtitles ! j"
      by (auto simp: in_set_conv_nth)
    define k where "k = fst (subtitles ! j)"
    from parse_lrc_cue(2) [OF p j] have fc: "fst c = k"
      and tc: "snd (snd c) = the (map_of (foldl lrc_line [] lines) k)"
      by (simp_all add: cj k_def)
    from j have "k \<in> set (map fst subtitles)"
      unfolding k_def using nth_mem [of j "map fst subtitles"] by simp
    then have "k \<in> (\<Union>l\<in>set lines. set (line_tags l))" unfolding 2 .
    then have "find (\<lambda>l. k \<in> set (line_tags l)) (rev lines) \<noteq> None"
      by (auto simp: find_None_iff)
    then obtain line where f: "find (\<lambda>l. k \<in> set (line_tags l)) (rev lines) = Some line"
      by auto
    then have "snd (snd c) = line_text line"
      by (simp add: tc lrc_lines_map_of)
    moreover from find_rev_Some [OF f] obtain before after
      where "lines = before @ line # after" "k \<in> set (line_tags line)"
        "\<forall>l\<in>set after. k \<notin> set (line_tags l)"
      by blast
    ultimately show ?thesis unfolding fc by blast
  qed
  from 3 have "\<forall>(start, end_t, text)\<in>set subtitles.
         \<exists>before line after. lines = before @ line # after \<and>
           start \<in> set (line_tags line) \<and>
           (\<forall>l\<in>set after. start \<notin> set (line_tags l)) \<and>
           text = line_text line"
    by fastforce
  with p 1 2 show ?thesis by blast
qed

theorem parse_lrc_last_line_wins_witness:
  "parse_lrc [''[00:02.00]first'', ''[00:02.00]second''] = Inr (''lrc'', [(2, 7, ''second'')]) \<and>
   line_tags ''[00:02.00]first'' = [2] \<and> line_tags ''[00:02.00]second'' = [2] \<and>
   line_text ''[00:02.00]second'' = ''second''"
proof -
  from parse_lrc_last_line_wins [of "[''[00:02.00]first'', ''[00:02.00]second'']"]
  obtain subtitles where p: "parse_lrc [''[00:02.00]first'', ''[00:02.00]second'']
        = Inr (''lrc'', subtitles)"
    and s: "\<forall>(start, end_t, text)\<in>set subtitles.
         \<exists>before line after. [''[00:02.00]first'', ''[00:02.00]second''] = before @ line # after \<and>
           start \<in> set (line_tags line) \<and>
           (\<forall>l\<in>set after. start \<notin> set (line_tags l)) \<and>
           text = line_text line"
    by blast
  from p have subs: "subtitles = [(2, 7, ''second'')]"
    by (simp add: ex7_parse_lrc)
  from s obtain before line after
    where d: "[''[00:02.00]first'', ''[00:02.00]second''] = before @ line # after"
      and a: "\<forall>l\<in>set after. 2 \<notin> set (line_tags l)" and t: "''second'' = line_text line"
    unfolding subs by auto
  from d a have "line = ''[00:02.00]second''"
    by (auto simp: Cons_eq_append_conv ex7_tags_second)
  with t show ?thesis
    by (simp add: ex7_parse_lrc ex7_tags_first ex7_tags_second)
qed

subsection \<open>C9: the VTT document\<close>




subsection \<open>C10: the start of an LRC cue lies before its end\<close>

text \<open>
  C10: every cue that \<open>parse_lrc\<close> returns has its start strictly before its end. For
  a cue that is not the last, the end is the next of the sorted, distinct keys of the
  dictionary. For the last cue the end is the float sum of the start and 5; the
  start is at most \<open>fl (99 * 60 + 99 + fl (99 / 100))\<close>, where the rounding of the sum
  is far smaller than 5. \<open>parse_vtt\<close>, in contrast, returns the cue (2, 1) for the time
  line \<^verbatim>\<open>00:00:02.000 --> 00:00:01.000\<close>.
\<close>

theorem parse_lrc_start_before_end:
  "(\<exists>subtitles. parse_lrc lines = Inr (''lrc'', subtitles) \<and>
      (\<forall>(start, end_t, text)\<in>set subtitles. start < end_t)) \<and>
   parse_vtt [''00:00:02.000 --> 00:00:01.000''] = Inr (''vtt'', [(2, 1, [])])"
proof -
  from parse_lrc_total obtain subtitles where p: "parse_lrc lines = Inr (''lrc'', subtitles)" ..
  have "fst c < fst (snd c)" if c: "c \<in> set subtitles" for c
  proof -
    from c obtain j where j: "j < length subtitles" and cj: "c = subtitles ! j"
      by (auto simp: in_set_conv_nth)
    show ?thesis
    proof (cases "j + 1 < length subtitles")
      case True
      from parse_lrc_starts_strict [OF p] True
      have "map fst subtitles ! j < map fst subtitles ! (j + 1)"
        by (simp add: sorted_wrt_iff_nth_less del: nth_map)
      with j True have "fst (subtitles ! j) < fst (subtitles ! (j + 1))" by simp
      with parse_lrc_cue(1) [OF p j] True show ?thesis by (simp add: cj)
    next
      case False
      from j have "fst (subtitles ! j) \<in> set (map fst subtitles)"
        using nth_mem [of j "map fst subtitles"] by simp
      then obtain l where "fst (subtitles ! j) \<in> set (line_tags l)"
        unfolding parse_lrc_start_set [OF p] by blast
      from line_tags_bounds [OF this]
      have "fst (subtitles ! j) < fadd (fst (subtitles ! j)) 5"
        by (intro fadd_5_greater) simp_all
      with parse_lrc_cue(1) [OF p j] False show ?thesis by (simp add: cj)
    qed
  qed
  then have "\<forall>(start, end_t, text)\<in>set subtitles. start < end_t" by auto
  with p ex8_parse_vtt show ?thesis by blast
qed


theorem parse_lrc_start_before_end_witness:
  "parse_lrc [''[00:01.00]Line A'', ''[00:05.00]Line B'']
     = Inr (''lrc'', [(1, 5, ''Line A''), (5, 10, ''Line B'')]) \<and>
   (1 :: rat) < 5 \<and> (5 :: rat) < 10"
proof -
  from parse_lrc_start_before_end [of "[''[00:01.00]Line A'', ''[00:05.00]Line B'']"]
  obtain subtitles where p: "parse_lrc [''[00:01.00]Line A'', ''[00:05.00]Line B'']
        = Inr (''lrc'', subtitles)"
    and s: "\<forall>(start, end_t, text)\<in>set subtitles. start < end_t"
    by blast
  from p have subs: "subtitles = [(1, 5, ''Line A''), (5, 10, ''Line B'')]"
    by (simp add: ex6_parse_lrc)
  from s show ?thesis
    unfolding subs by (simp add: ex6_parse_lrc)
qed


end
